theory Spec2Isabelle
  imports Main "HOL-Library.Word"
begin

unbundle bit_operations_syntax

section \<open>Records and record lists\<close>

text \<open>
  \<^verbatim>\<open>Cloud::keyT\<close> is the key type of the container record archive, a C++ \<^verbatim>\<open>long\<close>
  (the container instantiated in \<^verbatim>\<open>test_cloud.cc\<close> is keyed by \<^verbatim>\<open>long\<close>).
  A \<^verbatim>\<open>Recordlist<T>\<close> wraps a \<^verbatim>\<open>std::list<T>\<close>; the model is the list itself.
\<close>

type_synonym keyT = "64 word"
type_synonym recordlistT = "keyT list"

definition Recordlist_empty :: "recordlistT" where
  \<comment> \<open>\<^verbatim>\<open>Recordlist() : list()\<close>\<close>
  "Recordlist_empty = []"

definition Recordlist_single :: "keyT \<Rightarrow> recordlistT" where
  \<comment> \<open>\<^verbatim>\<open>explicit Recordlist(const T &key) : list{key}\<close>\<close>
  "Recordlist_single k = [k]"

definition Recordlist_add :: "recordlistT \<Rightarrow> recordlistT \<Rightarrow> recordlistT" where
  \<comment> \<open>\<^verbatim>\<open>operator+=(const Recordlist &list2)\<close>: push back every element of \<open>list2\<close>\<close>
  "Recordlist_add l list2 = foldl (\<lambda>acc l2. acc @ [l2]) l list2"

definition Recordlist_push :: "recordlistT \<Rightarrow> keyT \<Rightarrow> recordlistT" where
  \<comment> \<open>\<^verbatim>\<open>operator+=(const T &key)\<close>\<close>
  "Recordlist_push l k = l @ [k]"

fun pop_front_and_return :: "recordlistT \<Rightarrow> (keyT \<times> recordlistT) option" where
  \<comment> \<open>\<^verbatim>\<open>list.front()\<close> on an empty \<^verbatim>\<open>std::list\<close> is undefined: the model returns \<open>None\<close>\<close>
  "pop_front_and_return [] = None"
| "pop_front_and_return (k # ks) = Some (k, ks)"

definition Recordlist_size :: "recordlistT \<Rightarrow> nat" where
  "Recordlist_size l = length l"

section \<open>Values that can be stored\<close>

text \<open>
  The alternatives of \<^verbatim>\<open>cached_objT\<close> (``these are all allowed types for storing''),
  without \<^verbatim>\<open>std::monostate\<close>, which is never stored or loaded.
  A \<^verbatim>\<open>double\<close> is its 64-bit pattern. A \<^verbatim>\<open>Function<double,3>\<close> and a
  \<^verbatim>\<open>shared_ptr<FunctionImpl<double,3>>\<close> are handles of a distributed object: the model keeps
  the object's unique identifier, and a handle is always bound to an implementation
  (\<^verbatim>\<open>compute_record\<close> dereferences it). The identifier stands for the object that was
  stored: the model does not look into coefficients, and what a load gives back is
  compared with what was stored through this identifier.
\<close>

type_synonym double = "64 word"
type_synonym uniqueidT = nat
type_synonym blob = "8 word list"

datatype Tensor = Tensor (dims: "nat list") (elems: "double list")

datatype cached_objT =
    VSize "64 word"
  | VInt "32 word"
  | VLong "64 word"
  | VDouble double
  | VVecDouble "double list"
  | VTensor Tensor
  | VFunction uniqueidT
  | VFuncVec "uniqueidT list"
  | VImplPtr uniqueidT
  | VImplVec "uniqueidT list"

datatype objT =
    TSize | TInt | TLong | TDouble | TVecDouble | TTensor
  | TFunction | TFuncVec | TImplPtr | TImplVec

fun type_of_obj :: "cached_objT \<Rightarrow> objT" where
  "type_of_obj (VSize _) = TSize"
| "type_of_obj (VInt _) = TInt"
| "type_of_obj (VLong _) = TLong"
| "type_of_obj (VDouble _) = TDouble"
| "type_of_obj (VVecDouble _) = TVecDouble"
| "type_of_obj (VTensor _) = TTensor"
| "type_of_obj (VFunction _) = TFunction"
| "type_of_obj (VFuncVec _) = TFuncVec"
| "type_of_obj (VImplPtr _) = TImplPtr"
| "type_of_obj (VImplVec _) = TImplVec"

text \<open>
  A stored value is one object or a \<^verbatim>\<open>std::tuple\<close>; \<^verbatim>\<open>store\<close> recurses into tuples,
  so tuples nest. \<^verbatim>\<open>load<T>\<close> compiles for an object type and for a tuple of object
  types (a tuple inside a tuple would reach \<^verbatim>\<open>load_other\<close>, whose \<^verbatim>\<open>cache\<close> call has
  no variant alternative for it).
\<close>

datatype val = Obj cached_objT | Tuple "val list"

datatype loadT = TObj objT | TTuple "objT list"

section \<open>Collaborators\<close>

text \<open>
  The hash functions of \<^verbatim>\<open>worldhash.h\<close>, \<^verbatim>\<open>Tensor::normf\<close> and the archives are not
  part of the source at hand; they are parameters. \<open>hash_arg\<close> is the argument of the
  overloaded \<^verbatim>\<open>hash_value\<close>, with \<open>HRange\<close> for \<^verbatim>\<open>hash_range(begin, end)\<close> over the
  elements in order.
\<close>

datatype hash_arg =
    HSize "64 word"
  | HInt "32 word"
  | HLong "64 word"
  | HDouble double
  | HId uniqueidT
  | HRange "hash_arg list"

record collaborators =
  hash_value :: "hash_arg \<Rightarrow> keyT"
  normf :: "Tensor \<Rightarrow> double"
  archive_store :: "cached_objT \<Rightarrow> blob"
  archive_load :: "objT \<Rightarrow> blob \<Rightarrow> cached_objT option"

record World =
  rank :: nat

section \<open>The cloud\<close>

text \<open>
  The members of \<^verbatim>\<open>class Cloud\<close>, as one rank sees them. The two timers
  (\<^verbatim>\<open>reading_time\<close>, \<^verbatim>\<open>writing_time\<close>) measure cpu time and are left out. The counters
  are \<^verbatim>\<open>std::atomic<long>\<close>. A fence synchronises the ranks of a world and changes no
  member, and the debug output changes none; neither appears in the functions below.
\<close>

record Cloud =
  debug :: bool
  dofence :: bool
  force_load_from_cache :: bool
  container :: "keyT \<rightharpoonup> blob"
  cached_objects :: "keyT \<rightharpoonup> cached_objT"
  local_list_of_container_keys :: recordlistT
  cache_reads :: "64 word"
  cache_stores :: "64 word"

definition new_Cloud :: "64 word \<Rightarrow> 64 word \<Rightarrow> Cloud" where
  \<comment> \<open>a cloud right after construction. The constructor initialises the container and
      the two timers only: the two cache counters hold what the default constructor of
      \<^verbatim>\<open>std::atomic<long>\<close> leaves there, and are parameters.\<close>
  "new_Cloud reads0 stores0 =
     \<lparr> debug = False, dofence = True, force_load_from_cache = False,
       container = Map.empty, cached_objects = Map.empty,
       local_list_of_container_keys = [], cache_reads = reads0, cache_stores = stores0 \<rparr>"

definition set_debug :: "Cloud \<Rightarrow> bool \<Rightarrow> Cloud" where
  "set_debug s b = s\<lparr>debug := b\<rparr>"

definition set_fence :: "Cloud \<Rightarrow> bool \<Rightarrow> Cloud" where
  "set_fence s b = s\<lparr>dofence := b\<rparr>"

definition set_force_load_from_cache :: "Cloud \<Rightarrow> bool \<Rightarrow> Cloud" where
  "set_force_load_from_cache s b = s\<lparr>force_load_from_cache := b\<rparr>"

definition clear_cache :: "Cloud \<Rightarrow> Cloud" where
  "clear_cache s = s\<lparr>cached_objects := Map.empty, cache_stores := 0, cache_reads := 0,
     local_list_of_container_keys := []\<rparr>"

definition clear_timings :: "Cloud \<Rightarrow> Cloud" where
  "clear_timings s = s\<lparr>cache_stores := 0, cache_reads := 0,
     local_list_of_container_keys := []\<rparr>"

subsection \<open>Storing\<close>

text \<open>
  \<^verbatim>\<open>compute_record\<close> chooses by the type of its argument; the branches for
  \<^verbatim>\<open>WorldObject<T>\<close> and for a plain pointer to a function implementation have no
  alternative in \<^verbatim>\<open>cached_objT\<close>. The conversion of the hash to \<^verbatim>\<open>keyT\<close> keeps the 64
  bits.
\<close>

fun compute_record :: "collaborators \<Rightarrow> cached_objT \<Rightarrow> keyT" where
  "compute_record E (VFunction i) = hash_value E (HId i)"
| "compute_record E (VTensor t) = hash_value E (HDouble (normf E t))"
| "compute_record E (VImplPtr i) = hash_value E (HId i)"
| "compute_record E (VVecDouble xs) = hash_value E (HRange (map HDouble xs))"
| "compute_record E (VFuncVec fs) = hash_value E (HRange (map HId fs))"
| "compute_record E (VImplVec ps) = hash_value E (HRange (map HId ps))"
| "compute_record E (VSize n) = hash_value E (HSize n)"
| "compute_record E (VInt n) = hash_value E (HInt n)"
| "compute_record E (VLong n) = hash_value E (HLong n)"
| "compute_record E (VDouble x) = hash_value E (HDouble x)"

definition is_cached :: "Cloud \<Rightarrow> keyT \<Rightarrow> bool" where
  "is_cached s key = (cached_objects s key \<noteq> None)"

definition is_in_container :: "Cloud \<Rightarrow> keyT \<Rightarrow> bool" where
  \<comment> \<open>\<^verbatim>\<open>std::find\<close> over the world-local list of keys\<close>
  "is_in_container s key = (key \<in> set (local_list_of_container_keys s))"

definition store_other :: "collaborators \<Rightarrow> Cloud \<Rightarrow> World \<Rightarrow> cached_objT \<Rightarrow> recordlistT \<times> Cloud" where
  \<comment> \<open>the generic \<^verbatim>\<open>store_other\<close>; the archive writes the blob of the source at the record\<close>
  "store_other E s world source =
     (let record = compute_record E source;
          is_already_present = is_in_container s record
      in if is_already_present
         then (Recordlist_single record,
               if rank world = 0 then s\<lparr>cache_stores := cache_stores s + 1\<rparr> else s)
         else (Recordlist_single record,
               s\<lparr>container := (container s)(record \<mapsto> archive_store E source),
                 local_list_of_container_keys :=
                   Recordlist_push (local_list_of_container_keys s) record\<rparr>))"

fun store_functions :: "collaborators \<Rightarrow> Cloud \<Rightarrow> World \<Rightarrow> recordlistT \<Rightarrow> uniqueidT list \<Rightarrow> recordlistT \<times> Cloud" where
  \<comment> \<open>\<^verbatim>\<open>for (auto s : source) l += store_other(world, s)\<close>\<close>
  "store_functions E s world l [] = (l, s)"
| "store_functions E s world l (f # fs) =
     (case store_other E s world (VFunction f) of
        (l2, s') \<Rightarrow> store_functions E s' world (Recordlist_add l l2) fs)"

definition store_function_vector :: "collaborators \<Rightarrow> Cloud \<Rightarrow> World \<Rightarrow> uniqueidT list \<Rightarrow> recordlistT \<times> Cloud" where
  \<comment> \<open>the \<^verbatim>\<open>store_other\<close> overload for \<^verbatim>\<open>std::vector<Function<T,NDIM>>\<close>\<close>
  "store_function_vector E s world source =
     (case store_other E s world (VSize (of_nat (length source))) of
        (l, s') \<Rightarrow> store_functions E s' world l source)"

fun store :: "collaborators \<Rightarrow> Cloud \<Rightarrow> World \<Rightarrow> val \<Rightarrow> recordlistT \<times> Cloud"
and store_tuple :: "collaborators \<Rightarrow> Cloud \<Rightarrow> World \<Rightarrow> recordlistT \<Rightarrow> val list \<Rightarrow> recordlistT \<times> Cloud" where
  "store E s world (Tuple input) =
     (case store_tuple E s world Recordlist_empty input of
        (v, s') \<Rightarrow> (Recordlist_add Recordlist_empty v, s'))"
| "store E s world (Obj (VFuncVec source)) =
     (case store_function_vector E s world source of
        (l, s') \<Rightarrow> (Recordlist_add Recordlist_empty l, s'))"
| "store E s world (Obj source) =
     (case store_other E s world source of
        (l, s') \<Rightarrow> (Recordlist_add Recordlist_empty l, s'))"
| "store_tuple E s world v [] = (v, s)"
| "store_tuple E s world v (arg # args) =
     (case store E s world arg of
        (l, s') \<Rightarrow> store_tuple E s' world (Recordlist_add v l) args)"

subsection \<open>Loading\<close>

datatype error =
    PopFrontOfEmptyList
  | CacheRequiredMiss
  | CacheTypeMismatch
  | CacheIteratorAtEnd
  | MissingRecord
  | SerializationFailure

definition cache :: "Cloud \<Rightarrow> cached_objT \<Rightarrow> keyT \<Rightarrow> Cloud" where
  \<comment> \<open>\<^verbatim>\<open>cached_objects[record] = obj\<close>\<close>
  "cache s obj record = s\<lparr>cached_objects := (cached_objects s)(record \<mapsto> obj)\<rparr>"

definition load_from_cache :: "Cloud \<Rightarrow> World \<Rightarrow> objT \<Rightarrow> keyT \<Rightarrow> (error + cached_objT) \<times> Cloud" where
  \<comment> \<open>\<^verbatim>\<open>std::get_if<T>\<close> on the cached variant; the exception when the alternative
      differs. The source calls it for cached records only: \<^verbatim>\<open>find\<close> at the end of the
      map is the error \<open>CacheIteratorAtEnd\<close>.\<close>
  "load_from_cache s world T record =
     (let s' = (if rank world = 0 then s\<lparr>cache_reads := cache_reads s + 1\<rparr> else s)
      in case cached_objects s record of
           None \<Rightarrow> (Inl CacheIteratorAtEnd, s')
         | Some obj \<Rightarrow>
             if type_of_obj obj = T then (Inr obj, s') else (Inl CacheTypeMismatch, s'))"

definition fetch :: "collaborators \<Rightarrow> Cloud \<Rightarrow> objT \<Rightarrow> keyT \<Rightarrow> error + cached_objT" where
  \<comment> \<open>Modelled from the spec: the container record input archive and \<^verbatim>\<open>par & target\<close>,
      whose code is not in the source at hand. A record the container does not hold
      fails (``no such record''), a blob that does not deserialize to a \<open>T\<close> fails.\<close>
  "fetch E s T record =
     (case container s record of
        None \<Rightarrow> Inl MissingRecord
      | Some b \<Rightarrow>
          (case archive_load E T b of
             None \<Rightarrow> Inl SerializationFailure
           | Some target \<Rightarrow>
               if type_of_obj target = T then Inr target else Inl SerializationFailure))"

definition load_other :: "collaborators \<Rightarrow> Cloud \<Rightarrow> World \<Rightarrow> objT \<Rightarrow> recordlistT \<Rightarrow> (error + cached_objT \<times> recordlistT) \<times> Cloud" where
  "load_other E s world T recordlist =
     (case pop_front_and_return recordlist of
        None \<Rightarrow> (Inl PopFrontOfEmptyList, s)
      | Some (record, rest) \<Rightarrow>
          if force_load_from_cache s \<and> \<not> is_cached s record then (Inl CacheRequiredMiss, s)
          else if is_cached s record then
            (case load_from_cache s world T record of
               (Inl e, s') \<Rightarrow> (Inl e, s')
             | (Inr obj, s') \<Rightarrow> (Inr (obj, rest), s'))
          else
            (case fetch E s T record of
               Inl e \<Rightarrow> (Inl e, s)
             | Inr target \<Rightarrow> (Inr (target, rest), cache s target record)))"

fun load_functions :: "collaborators \<Rightarrow> Cloud \<Rightarrow> World \<Rightarrow> nat \<Rightarrow> recordlistT \<Rightarrow> (error + uniqueidT list \<times> recordlistT) \<times> Cloud" where
  \<comment> \<open>\<^verbatim>\<open>for (i = 0; i < sz; ++i) target[i] = load_other<Function>(world, recordlist)\<close>\<close>
  "load_functions E s world 0 recordlist = (Inr ([], recordlist), s)"
| "load_functions E s world (Suc n) recordlist =
     (case load_other E s world TFunction recordlist of
        (Inl e, s') \<Rightarrow> (Inl e, s')
      | (Inr (VFunction f, rest), s') \<Rightarrow>
          (case load_functions E s' world n rest of
             (Inl e, s'') \<Rightarrow> (Inl e, s'')
           | (Inr (fs, rest'), s'') \<Rightarrow> (Inr (f # fs, rest'), s''))
      | (Inr (_, rest), s') \<Rightarrow> (Inl CacheTypeMismatch, s'))"

definition load_madness_function_vector :: "collaborators \<Rightarrow> Cloud \<Rightarrow> World \<Rightarrow> recordlistT \<Rightarrow> (error + cached_objT \<times> recordlistT) \<times> Cloud" where
  "load_madness_function_vector E s world recordlist =
     (case load_other E s world TSize recordlist of
        (Inl e, s') \<Rightarrow> (Inl e, s')
      | (Inr (VSize sz, rest), s') \<Rightarrow>
          (case load_functions E s' world (unat sz) rest of
             (Inl e, s'') \<Rightarrow> (Inl e, s'')
           | (Inr (fs, rest'), s'') \<Rightarrow> (Inr (VFuncVec fs, rest'), s''))
      | (Inr (_, rest), s') \<Rightarrow> (Inl CacheTypeMismatch, s'))"

definition load_internal :: "collaborators \<Rightarrow> Cloud \<Rightarrow> World \<Rightarrow> objT \<Rightarrow> recordlistT \<Rightarrow> (error + cached_objT \<times> recordlistT) \<times> Cloud" where
  "load_internal E s world T recordlist =
     (if T = TFuncVec then load_madness_function_vector E s world recordlist
      else load_other E s world T recordlist)"

fun load_tuple :: "collaborators \<Rightarrow> Cloud \<Rightarrow> World \<Rightarrow> objT list \<Rightarrow> recordlistT \<Rightarrow> (error + cached_objT list \<times> recordlistT) \<times> Cloud" where
  \<comment> \<open>the fold over the tuple's members, left to right\<close>
  "load_tuple E s world [] recordlist = (Inr ([], recordlist), s)"
| "load_tuple E s world (T # Ts) recordlist =
     (case load_internal E s world T recordlist of
        (Inl e, s') \<Rightarrow> (Inl e, s')
      | (Inr (obj, rest), s') \<Rightarrow>
          (case load_tuple E s' world Ts rest of
             (Inl e, s'') \<Rightarrow> (Inl e, s'')
           | (Inr (objs, rest'), s'') \<Rightarrow> (Inr (obj # objs, rest'), s'')))"

fun load :: "collaborators \<Rightarrow> Cloud \<Rightarrow> World \<Rightarrow> loadT \<Rightarrow> recordlistT \<Rightarrow> (error + val) \<times> Cloud" where
  \<comment> \<open>\<^verbatim>\<open>recordlistT rlist = recordlist\<close>: the callee consumes its own copy\<close>
  "load E s world (TTuple Ts) recordlist =
     (case load_tuple E s world Ts recordlist of
        (Inl e, s') \<Rightarrow> (Inl e, s')
      | (Inr (objs, rlist), s') \<Rightarrow> (Inr (Tuple (map Obj objs)), s'))"
| "load E s world (TObj T) recordlist =
     (case load_internal E s world T recordlist of
        (Inl e, s') \<Rightarrow> (Inl e, s')
      | (Inr (obj, rlist), s') \<Rightarrow> (Inr (Obj obj), s'))"

subsection \<open>The records a store visits\<close>

text \<open>
  The objects that \<^verbatim>\<open>store\<close> hands to the generic \<^verbatim>\<open>store_other\<close>, in the order of
  the recursion: a vector of functions contributes its length and then its elements, a
  tuple the leaves of its members.
\<close>

fun leaves :: "val \<Rightarrow> cached_objT list" where
  "leaves (Tuple vs) = concat (map leaves vs)"
| "leaves (Obj (VFuncVec fs)) = VSize (of_nat (length fs)) # map VFunction fs"
| "leaves (Obj obj) = [obj]"

definition store_state :: "collaborators \<Rightarrow> World \<Rightarrow> Cloud \<Rightarrow> cached_objT \<Rightarrow> Cloud" where
  "store_state E world s obj = snd (store_other E s world obj)"

subsection \<open>Reading the cache\<close>

definition count_read :: "Cloud \<Rightarrow> World \<Rightarrow> Cloud" where
  \<comment> \<open>\<^verbatim>\<open>if (world.rank()==0) cache_reads++\<close>\<close>
  "count_read s world = (if rank world = 0 then s\<lparr>cache_reads := cache_reads s + 1\<rparr> else s)"

definition reads_only :: "Cloud \<Rightarrow> Cloud \<Rightarrow> bool" where
  \<comment> \<open>the second cloud is the first but for the counter of cache reads\<close>
  "reads_only s s' = (s' = s\<lparr>cache_reads := cache_reads s'\<rparr>)"

subsection \<open>The records a load pops\<close>

text \<open>
  The number of records the recursion of \<^verbatim>\<open>load\<close> asks of the list it is given: one
  for an object, one and the loaded length for a vector of functions, and for a tuple
  what its members ask, each in the state and with the list its predecessors left; a
  member that fails is the last one counted.
\<close>

definition demand_internal :: "collaborators \<Rightarrow> Cloud \<Rightarrow> World \<Rightarrow> objT \<Rightarrow> recordlistT \<Rightarrow> nat" where
  "demand_internal E s world T rl =
     (if T = TFuncVec then
        (case load_other E s world TSize rl of
           (Inr (VSize sz, rest), s') \<Rightarrow> 1 + unat sz
         | _ \<Rightarrow> 1)
      else 1)"

fun demand_tuple :: "collaborators \<Rightarrow> Cloud \<Rightarrow> World \<Rightarrow> objT list \<Rightarrow> recordlistT \<Rightarrow> nat" where
  "demand_tuple E s world [] rl = 0"
| "demand_tuple E s world (T # Ts) rl =
     (case load_internal E s world T rl of
        (Inr (obj, rest), s') \<Rightarrow> (length rl - length rest) + demand_tuple E s' world Ts rest
      | (Inl e, s') \<Rightarrow> demand_internal E s world T rl)"

fun demand :: "collaborators \<Rightarrow> Cloud \<Rightarrow> World \<Rightarrow> loadT \<Rightarrow> recordlistT \<Rightarrow> nat" where
  "demand E s world (TObj T) rl = demand_internal E s world T rl"
| "demand E s world (TTuple Ts) rl = demand_tuple E s world Ts rl"

subsection \<open>When a stored value can be loaded again\<close>

text \<open>
  The type to ask \<^verbatim>\<open>load\<close> for: defined for an object and for a tuple of objects,
  the types \<^verbatim>\<open>load\<close> compiles for.
\<close>

fun obj_of :: "val \<Rightarrow> cached_objT option" where
  "obj_of (Obj obj) = Some obj"
| "obj_of (Tuple vs) = None"

fun type_of_val :: "val \<Rightarrow> loadT option" where
  "type_of_val (Obj obj) = Some (TObj (type_of_obj obj))"
| "type_of_val (Tuple vs) =
     map_option (\<lambda>objs. TTuple (map type_of_obj objs)) (those (map obj_of vs))"

text \<open>
  A \<^verbatim>\<open>std::vector\<close> has a length that fits \<^verbatim>\<open>std::size_t\<close>.
\<close>

fun sizes_fit :: "val \<Rightarrow> bool" where
  "sizes_fit (Tuple vs) = (\<forall>v \<in> set vs. sizes_fit v)"
| "sizes_fit (Obj (VFuncVec fs)) = (length fs < 2 ^ 64)"
| "sizes_fit (Obj obj) = True"

definition archive_inverts :: "collaborators \<Rightarrow> cached_objT list \<Rightarrow> bool" where
  \<comment> \<open>the input archive reads back what the output archive wrote\<close>
  "archive_inverts E L =
     (\<forall>obj \<in> set L. archive_load E (type_of_obj obj) (archive_store E obj) = Some obj)"

definition collision_free :: "collaborators \<Rightarrow> cached_objT list \<Rightarrow> bool" where
  \<comment> \<open>objects with the same record are the same object\<close>
  "collision_free E L =
     (\<forall>a \<in> set L. \<forall>b \<in> set L. compute_record E a = compute_record E b \<longrightarrow> a = b)"

definition agrees_with :: "collaborators \<Rightarrow> Cloud \<Rightarrow> cached_objT list \<Rightarrow> bool" where
  \<comment> \<open>what ledger, container and cache hold at the records of the objects is these objects\<close>
  "agrees_with E s L =
     (\<forall>obj \<in> set L.
        (is_in_container s (compute_record E obj) \<longrightarrow>
           container s (compute_record E obj) = Some (archive_store E obj))
      \<and> (case cached_objects s (compute_record E obj) of
           None \<Rightarrow> True
         | Some c \<Rightarrow> c = obj))"

definition ready :: "collaborators \<Rightarrow> Cloud \<Rightarrow> cached_objT list \<Rightarrow> bool" where
  \<comment> \<open>every object can be loaded: its blob is in the container, the cache holds no other\<close>
  "ready E s L =
     (\<not> force_load_from_cache s
      \<and> (\<forall>obj \<in> set L.
           container s (compute_record E obj) = Some (archive_store E obj)
         \<and> (case cached_objects s (compute_record E obj) of
              None \<Rightarrow> True
            | Some c \<Rightarrow> c = obj)))"

section \<open>Function pointers in archives\<close>

text \<open>
  \<^verbatim>\<open>archive.h\<close>: a function pointer travels as its distance from the reference function
  \<^verbatim>\<open>fn_ptr_origin()\<close>, whose definition is not in the source at hand and is a parameter.
  \<^verbatim>\<open>std::ptrdiff_t\<close> is a 64-bit word. A member function pointer is the array of two
  \<^verbatim>\<open>ptrdiff_t\<close> that \<^verbatim>\<open>memcpy\<close> reads it as; the branch taken depends on
  \<^verbatim>\<open>MADNESS_CXX_ABI\<close>.
\<close>

type_synonym ptrdiff_t = "64 word"

definition ptrdiff_min :: ptrdiff_t where
  \<comment> \<open>\<^verbatim>\<open>std::numeric_limits<std::ptrdiff_t>::min()\<close>\<close>
  "ptrdiff_min = 0x8000000000000000"

datatype cxx_abi = GenericItanium | GenericARM | Microsoft

definition to_rel_fn_ptr :: "ptrdiff_t \<Rightarrow> ptrdiff_t \<Rightarrow> ptrdiff_t" where
  "to_rel_fn_ptr fn_ptr_origin fn = fn - fn_ptr_origin"

definition to_abs_fn_ptr :: "ptrdiff_t \<Rightarrow> ptrdiff_t \<Rightarrow> ptrdiff_t" where
  "to_abs_fn_ptr fn_ptr_origin rel_fn_ptr = rel_fn_ptr + fn_ptr_origin"

fun to_rel_memfn_ptr :: "cxx_abi \<Rightarrow> ptrdiff_t \<Rightarrow> ptrdiff_t \<times> ptrdiff_t \<Rightarrow> ptrdiff_t \<times> ptrdiff_t" where
  "to_rel_memfn_ptr GenericItanium fn_ptr_origin (r0, r1) =
     (if r0 = 0 then (r0, ptrdiff_min)
      else if r0 AND 1 = 0 then (r0 - fn_ptr_origin, r1)
      else (r0, r1))"
| "to_rel_memfn_ptr GenericARM fn_ptr_origin (r0, r1) =
     (let even_adj = (r1 AND 1 = 0)
      in if even_adj then
           (if r0 = 0 then (ptrdiff_min, r1) else (r0 - fn_ptr_origin, r1))
         else (r0, r1))"
| "to_rel_memfn_ptr Microsoft fn_ptr_origin (r0, r1) = (r0, r1)"

fun to_abs_memfn_ptr :: "cxx_abi \<Rightarrow> ptrdiff_t \<Rightarrow> ptrdiff_t \<times> ptrdiff_t \<Rightarrow> ptrdiff_t \<times> ptrdiff_t" where
  "to_abs_memfn_ptr GenericItanium fn_ptr_origin (r0, r1) =
     (if r0 = 0 \<and> r1 = ptrdiff_min then (r0, 0)
      else if r0 AND 1 = 0 then (r0 + fn_ptr_origin, r1)
      else (r0, r1))"
| "to_abs_memfn_ptr GenericARM fn_ptr_origin (r0, r1) =
     (let even_adj = (r1 AND 1 = 0)
      in if even_adj then
           (if r0 = ptrdiff_min then (0, r1) else (r0 + fn_ptr_origin, r1))
         else (r0, r1))"
| "to_abs_memfn_ptr Microsoft fn_ptr_origin (r0, r1) = (r0, r1)"

text \<open>
  How each ABI reads the two words, as the comments of the source state it: Itanium has
  pointer zero for null and an odd pointer for a virtual function; ARM has pointer zero
  with an even adjustment for null and an odd adjustment for a virtual function. Under
  the Microsoft ABI the source translates nothing and says nothing of the layout: there
  the first word zero stands for null and no pointer is marked virtual.
\<close>

fun memfn_is_null :: "cxx_abi \<Rightarrow> ptrdiff_t \<times> ptrdiff_t \<Rightarrow> bool" where
  "memfn_is_null GenericItanium (p, adj) = (p = 0)"
| "memfn_is_null GenericARM (p, adj) = (p = 0 \<and> adj AND 1 = 0)"
| "memfn_is_null Microsoft (p, adj) = (p = 0)"

fun memfn_is_virtual :: "cxx_abi \<Rightarrow> ptrdiff_t \<times> ptrdiff_t \<Rightarrow> bool" where
  "memfn_is_virtual GenericItanium (p, adj) = (p AND 1 = 1)"
| "memfn_is_virtual GenericARM (p, adj) = (adj AND 1 = 1)"
| "memfn_is_virtual Microsoft (p, adj) = False"

text \<open>
  The pointers whose relative form is the tag of the null pointer: under Itanium the
  reference function itself with the adjustment \<open>ptrdiff_min\<close>, under ARM a function
  \<open>2 ^ 63\<close> bytes from the reference function. No program holds such a member function
  pointer (an adjustment of \<open>ptrdiff_min\<close> is beyond any object, and no two functions
  lie that far apart), which is why the source takes \<open>ptrdiff_min\<close> for the tag.
\<close>

fun sentinel_clash :: "cxx_abi \<Rightarrow> ptrdiff_t \<Rightarrow> ptrdiff_t \<times> ptrdiff_t \<Rightarrow> bool" where
  "sentinel_clash GenericItanium fn_ptr_origin (p, adj) = (p = fn_ptr_origin \<and> adj = ptrdiff_min)"
| "sentinel_clash GenericARM fn_ptr_origin (p, adj) = (p - fn_ptr_origin = ptrdiff_min)"
| "sentinel_clash Microsoft fn_ptr_origin (p, adj) = False"

section \<open>A concrete instance of the collaborators\<close>

text \<open>
  A small hash, norm and fixed-width archive, used to run the model on concrete inputs.
\<close>

fun demo_hash :: "hash_arg \<Rightarrow> keyT" where
  "demo_hash (HSize n) = 8 * n + 1"
| "demo_hash (HInt n) = 8 * ucast n + 2"
| "demo_hash (HLong n) = 8 * n + 3"
| "demo_hash (HDouble x) = 8 * x + 4"
| "demo_hash (HId i) = 8 * of_nat i + 5"
| "demo_hash (HRange xs) = 8 * sum_list (map demo_hash xs) + 6"

definition bytes_of_word :: "64 word \<Rightarrow> blob" where
  "bytes_of_word w = map (\<lambda>i. ucast (drop_bit (8 * i) w)) [0..<8]"

definition word_of_bytes :: "blob \<Rightarrow> 64 word" where
  "word_of_bytes bs = foldr (\<lambda>b acc. push_bit 8 acc OR ucast b) bs 0"

fun demo_archive_store :: "cached_objT \<Rightarrow> blob" where
  "demo_archive_store (VSize n) = bytes_of_word n"
| "demo_archive_store (VInt n) = bytes_of_word (ucast n)"
| "demo_archive_store (VLong n) = bytes_of_word n"
| "demo_archive_store (VDouble x) = bytes_of_word x"
| "demo_archive_store (VFunction i) = bytes_of_word (of_nat i)"
| "demo_archive_store (VImplPtr i) = bytes_of_word (of_nat i)"
| "demo_archive_store _ = []"

fun demo_archive_load :: "objT \<Rightarrow> blob \<Rightarrow> cached_objT option" where
  "demo_archive_load TSize b = Some (VSize (word_of_bytes b))"
| "demo_archive_load TInt b = Some (VInt (ucast (word_of_bytes b)))"
| "demo_archive_load TLong b = Some (VLong (word_of_bytes b))"
| "demo_archive_load TDouble b = Some (VDouble (word_of_bytes b))"
| "demo_archive_load TFunction b = Some (VFunction (unat (word_of_bytes b)))"
| "demo_archive_load TImplPtr b = Some (VImplPtr (unat (word_of_bytes b)))"
| "demo_archive_load _ b = None"

definition demo :: collaborators where
  "demo = \<lparr> hash_value = demo_hash, normf = (\<lambda>t. sum_list (elems t)),
            archive_store = demo_archive_store, archive_load = demo_archive_load \<rparr>"

definition rank0 :: World where
  "rank0 = \<lparr> rank = 0 \<rparr>"

definition rank1 :: World where
  "rank1 = \<lparr> rank = 1 \<rparr>"

definition demo_tuple :: val where
  "demo_tuple = Tuple [Obj (VInt 3), Obj (VFuncVec [5, 6]), Obj (VInt 3)]"

definition miss_cloud :: Cloud where
  "miss_cloud = set_force_load_from_cache (snd (store demo (new_Cloud 0 0) rank0 (Obj (VInt 3)))) True"

definition stored_vector :: "recordlistT \<times> Cloud" where
  "stored_vector = store demo (new_Cloud 0 0) rank0 (Obj (VFuncVec [5, 6]))"

definition warm_cloud :: Cloud where
  "warm_cloud = snd (load demo (snd stored_vector) rank1 (TObj TFuncVec) (fst stored_vector))"

definition function_and_impl :: val where
  "function_and_impl = Tuple [Obj (VFunction 7), Obj (VImplPtr 7)]"

section \<open>What a store returns\<close>

lemma Recordlist_add_append: "Recordlist_add l l2 = l @ l2"
  unfolding Recordlist_add_def by (induction l2 arbitrary: l) simp_all

lemma store_other_eq:
  "store_other E s world obj = ([compute_record E obj], store_state E world s obj)"
  by (simp add: store_state_def store_other_def Recordlist_single_def Let_def)

lemma store_functions_eq:
  "store_functions E s world l fs =
     (l @ map (compute_record E) (map VFunction fs),
      foldl (store_state E world) s (map VFunction fs))"
  by (induction fs arbitrary: s l) (simp_all add: store_other_eq Recordlist_add_append)

lemma store_function_vector_eq:
  "store_function_vector E s world fs =
     (map (compute_record E) (leaves (Obj (VFuncVec fs))),
      foldl (store_state E world) s (leaves (Obj (VFuncVec fs))))"
  by (simp add: store_function_vector_def store_other_eq store_functions_eq)

lemma store_eq_leaves:
  "store E s world v =
     (map (compute_record E) (leaves v), foldl (store_state E world) s (leaves v))"
  "store_tuple E s world acc vs =
     (acc @ map (compute_record E) (concat (map leaves vs)),
      foldl (store_state E world) s (concat (map leaves vs)))"
proof (induction E s world v and E s world acc vs rule: store_store_tuple.induct)
qed (simp_all add: store_other_eq store_function_vector_eq Recordlist_add_append
       Recordlist_empty_def)

lemma store_records: "fst (store E s world v) = map (compute_record E) (leaves v)"
  by (simp add: store_eq_leaves)

text \<open>
  C6, as the code has it. The record list of a vector of \<open>N\<close> functions is the record
  of the length followed by the records of the \<open>N\<close> elements, so it has \<open>N + 1\<close>
  records, and one record when the vector is empty. Every other vector, a vector of
  pointers to function implementations among them, is stored whole and has one record.
  An empty tuple gives the empty list; a tuple gives the record lists of its members one
  after the other, in the order of the members, each member being stored in the state
  its predecessors left.
\<close>

theorem store_recordlist_shape:
  "Recordlist_size (fst (store E s world (Obj (VFuncVec fs)))) = length fs + 1
   \<and> fst (store E s world (Obj (VFuncVec fs))) =
       compute_record E (VSize (of_nat (length fs))) # map (\<lambda>f. compute_record E (VFunction f)) fs
   \<and> Recordlist_size (fst (store E s world (Obj (VFuncVec [])))) = 1
   \<and> Recordlist_size (fst (store E s world (Obj (VImplVec ps)))) = 1
   \<and> Recordlist_size (fst (store E s world (Obj (VVecDouble xs)))) = 1
   \<and> fst (store E s world (Tuple [])) = []
   \<and> fst (store E s world (Tuple (v # vs))) =
       fst (store E s world v) @ fst (store E (snd (store E s world v)) world (Tuple vs))
   \<and> fst (store E s world (Tuple vs)) = concat (map (\<lambda>v. fst (store E s world v)) vs)"
proof -
  have "map (compute_record E) (concat (map leaves vs)) =
        concat (map (\<lambda>v. map (compute_record E) (leaves v)) vs)"
    by (induction vs) simp_all
  then show ?thesis
    unfolding store_records Recordlist_size_def by simp
qed

text \<open>
  C6 as the spec states it fails for a vector of handles that are not functions: the
  vector of the two pointers to the implementations 5 and 6 is stored under one record,
  not three.
\<close>

theorem store_recordlist_shape_counterexample:
  "Recordlist_size (fst (store demo (new_Cloud 0 0) rank0 (Obj (VImplVec [5, 6])))) = 1
   \<and> Recordlist_size (fst (store demo (new_Cloud 0 0) rank0 (Obj (VImplVec [5, 6])))) \<noteq> length [5::nat, 6] + 1"
  unfolding store_records Recordlist_size_def by simp

text \<open>
  C7. The record of a stored object depends on its content alone: for a tensor it is the
  hash of its norm, for a function and for a pointer to a function implementation the
  hash of the identifier of the object, for a vector the hash of the range of its
  elements in order, for a scalar the hash of the scalar.
\<close>

theorem record_of_content:
  "fst (store E s world (Obj (VTensor t))) = [hash_value E (HDouble (normf E t))]
   \<and> fst (store E s world (Obj (VFunction i))) = [hash_value E (HId i)]
   \<and> fst (store E s world (Obj (VImplPtr i))) = [hash_value E (HId i)]
   \<and> fst (store E s world (Obj (VVecDouble xs))) = [hash_value E (HRange (map HDouble xs))]
   \<and> fst (store E s world (Obj (VImplVec ps))) = [hash_value E (HRange (map HId ps))]
   \<and> fst (store E s world (Obj (VSize n))) = [hash_value E (HSize n)]
   \<and> fst (store E s world (Obj (VInt k))) = [hash_value E (HInt k)]
   \<and> fst (store E s world (Obj (VLong l))) = [hash_value E (HLong l)]
   \<and> fst (store E s world (Obj (VDouble x))) = [hash_value E (HDouble x)]"
  unfolding store_records by simp

section \<open>Relative function pointers\<close>

lemma and_one_diff:
  fixes p q :: "64 word"
  shows "p AND 1 = 0 \<Longrightarrow> q AND 1 = 0 \<Longrightarrow> (p - q) AND 1 = 0"
  by (simp add: and_one_eq even_iff_mod_2_eq_zero[symmetric])

lemma itanium_roundtrip:
  assumes "fn_ptr_origin AND 1 = 0"
    and "\<not> sentinel_clash GenericItanium fn_ptr_origin p"
    and "\<not> memfn_is_null GenericItanium p"
  shows "to_abs_memfn_ptr GenericItanium fn_ptr_origin
           (to_rel_memfn_ptr GenericItanium fn_ptr_origin p) = p"
  using assms and_one_diff[of "fst p" fn_ptr_origin] by (cases p) auto

lemma itanium_null:
  "memfn_is_null GenericItanium p \<Longrightarrow>
   memfn_is_null GenericItanium
     (to_abs_memfn_ptr GenericItanium fn_ptr_origin (to_rel_memfn_ptr GenericItanium fn_ptr_origin p))"
  by (cases p) auto

lemma arm_roundtrip:
  assumes "\<not> sentinel_clash GenericARM fn_ptr_origin p"
  shows "to_abs_memfn_ptr GenericARM fn_ptr_origin
           (to_rel_memfn_ptr GenericARM fn_ptr_origin p) = p"
  using assms by (cases p) (auto simp: Let_def ptrdiff_min_def)

lemma microsoft_roundtrip:
  "to_abs_memfn_ptr Microsoft fn_ptr_origin (to_rel_memfn_ptr Microsoft fn_ptr_origin p) = p"
  by (cases p) simp

lemma virtual_not_null: "memfn_is_virtual abi p \<Longrightarrow> \<not> memfn_is_null abi p"
  by (cases abi; cases p) auto

text \<open>
  C8. A free function pointer comes back from its relative form unchanged, whatever the
  reference function. For a member function pointer that a program can hold (its
  relative form is not the tag of the null pointer), with the reference function at an
  even address as the source guarantees (needed under the Itanium ABI only): a null
  pointer comes back null, every other pointer comes back equal, and so a virtual
  pointer comes back virtual.
\<close>

theorem fn_ptr_roundtrip:
  assumes "abi = GenericItanium \<longrightarrow> fn_ptr_origin AND 1 = 0"
    and "\<not> sentinel_clash abi fn_ptr_origin p"
  shows "to_abs_fn_ptr fn_ptr_origin (to_rel_fn_ptr fn_ptr_origin fn) = fn
    \<and> (memfn_is_null abi p \<longrightarrow>
         memfn_is_null abi (to_abs_memfn_ptr abi fn_ptr_origin (to_rel_memfn_ptr abi fn_ptr_origin p)))
    \<and> (\<not> memfn_is_null abi p \<longrightarrow>
         to_abs_memfn_ptr abi fn_ptr_origin (to_rel_memfn_ptr abi fn_ptr_origin p) = p)
    \<and> (memfn_is_virtual abi p \<longrightarrow>
         memfn_is_virtual abi (to_abs_memfn_ptr abi fn_ptr_origin (to_rel_memfn_ptr abi fn_ptr_origin p)))"
proof -
  let ?rt = "to_abs_memfn_ptr abi fn_ptr_origin (to_rel_memfn_ptr abi fn_ptr_origin p)"
  have free: "to_abs_fn_ptr fn_ptr_origin (to_rel_fn_ptr fn_ptr_origin fn) = fn"
    by (simp add: to_abs_fn_ptr_def to_rel_fn_ptr_def)
  have nonnull: "?rt = p" if "\<not> memfn_is_null abi p"
  proof (cases abi)
    case GenericItanium
    with assms that show ?thesis by (simp add: itanium_roundtrip)
  next
    case GenericARM
    with assms show ?thesis by (simp add: arm_roundtrip)
  next
    case Microsoft
    then show ?thesis by (simp add: microsoft_roundtrip)
  qed
  have null: "memfn_is_null abi ?rt" if "memfn_is_null abi p"
  proof (cases abi)
    case GenericItanium
    with that show ?thesis by (simp add: itanium_null)
  next
    case GenericARM
    with assms that show ?thesis by (simp add: arm_roundtrip)
  next
    case Microsoft
    with that show ?thesis by (simp add: microsoft_roundtrip)
  qed
  have "memfn_is_virtual abi ?rt" if "memfn_is_virtual abi p"
    using that nonnull virtual_not_null by simp
  with free nonnull null show ?thesis by blast
qed

theorem fn_ptr_roundtrip_witness:
  "to_abs_fn_ptr 4096 (to_rel_fn_ptr 4096 8192) = 8192
   \<and> to_abs_memfn_ptr GenericItanium 4096 (to_rel_memfn_ptr GenericItanium 4096 (8192, 16)) = (8192, 16)
   \<and> memfn_is_null GenericItanium
       (to_abs_memfn_ptr GenericItanium 4096 (to_rel_memfn_ptr GenericItanium 4096 (0, 16)))
   \<and> memfn_is_virtual GenericItanium
       (to_abs_memfn_ptr GenericItanium 4096 (to_rel_memfn_ptr GenericItanium 4096 (17, 0)))"
  using fn_ptr_roundtrip [of GenericItanium 4096 "(8192, 16)" 8192]
    fn_ptr_roundtrip [of GenericItanium 4096 "(0, 16)" 8192]
    fn_ptr_roundtrip [of GenericItanium 4096 "(17, 0)" 8192]
  by (simp add: ptrdiff_min_def)

section \<open>The ledger of written records\<close>

lemma store_state_present:
  "compute_record E obj \<in> set (local_list_of_container_keys s) \<Longrightarrow>
   store_state E world s obj =
     (if rank world = 0 then s\<lparr>cache_stores := cache_stores s + 1\<rparr> else s)"
  by (simp add: store_state_def store_other_def is_in_container_def Let_def)

lemma store_state_absent:
  "compute_record E obj \<notin> set (local_list_of_container_keys s) \<Longrightarrow>
   store_state E world s obj =
     s\<lparr>container := (container s)(compute_record E obj \<mapsto> archive_store E obj),
       local_list_of_container_keys := local_list_of_container_keys s @ [compute_record E obj]\<rparr>"
  by (simp add: store_state_def store_other_def is_in_container_def Let_def Recordlist_push_def)

lemma store_state_frame:
  "cached_objects (store_state E world s obj) = cached_objects s"
  "force_load_from_cache (store_state E world s obj) = force_load_from_cache s"
  "debug (store_state E world s obj) = debug s"
  "dofence (store_state E world s obj) = dofence s"
  "cache_reads (store_state E world s obj) = cache_reads s"
  by (cases "compute_record E obj \<in> set (local_list_of_container_keys s)";
      simp add: store_state_present store_state_absent)+

lemma store_all_frame:
  "cached_objects (foldl (store_state E world) s os) = cached_objects s"
  "force_load_from_cache (foldl (store_state E world) s os) = force_load_from_cache s"
  by (induction os arbitrary: s; simp add: store_state_frame)+

lemma store_all_ledger:
  "\<exists>new. local_list_of_container_keys (foldl (store_state E world) s os) =
            local_list_of_container_keys s @ new
         \<and> distinct new
         \<and> set new = compute_record E ` set os - set (local_list_of_container_keys s)"
proof (induction os arbitrary: s)
  case Nil
  then show ?case by simp
next
  case (Cons obj os)
  let ?r = "compute_record E obj"
  obtain new where new:
    "local_list_of_container_keys (foldl (store_state E world) (store_state E world s obj) os) =
       local_list_of_container_keys (store_state E world s obj) @ new"
    "distinct new"
    "set new = compute_record E ` set os - set (local_list_of_container_keys (store_state E world s obj))"
    using Cons.IH by blast
  show ?case
  proof (cases "?r \<in> set (local_list_of_container_keys s)")
    case True
    then have "local_list_of_container_keys (store_state E world s obj) = local_list_of_container_keys s"
      by (simp add: store_state_present)
    with new True show ?thesis by (intro exI[of _ new]) auto
  next
    case False
    then have "local_list_of_container_keys (store_state E world s obj) =
               local_list_of_container_keys s @ [?r]"
      by (simp add: store_state_absent)
    with new False show ?thesis by (intro exI[of _ "?r # new"]) auto
  qed
qed

lemma store_all_ledger_set:
  "set (local_list_of_container_keys (foldl (store_state E world) s os)) =
   set (local_list_of_container_keys s) \<union> compute_record E ` set os"
  using store_all_ledger[of E world s os] by auto

lemma store_all_distinct:
  "distinct (local_list_of_container_keys s) \<Longrightarrow>
   distinct (local_list_of_container_keys (foldl (store_state E world) s os))"
  using store_all_ledger[of E world s os] by auto

lemma store_all_container_kept:
  "r \<in> set (local_list_of_container_keys s) \<or> r \<notin> compute_record E ` set os \<Longrightarrow>
   container (foldl (store_state E world) s os) r = container s r"
proof (induction os arbitrary: s)
  case Nil
  then show ?case by simp
next
  case (Cons obj os)
  show ?case
  proof (cases "compute_record E obj \<in> set (local_list_of_container_keys s)")
    case True
    with Cons.prems have "container (foldl (store_state E world) (store_state E world s obj) os) r
        = container (store_state E world s obj) r"
      by (intro Cons.IH) (auto simp: store_state_present)
    with True show ?thesis by (simp add: store_state_present)
  next
    case False
    with Cons.prems have "container (foldl (store_state E world) (store_state E world s obj) os) r
        = container (store_state E world s obj) r"
      by (intro Cons.IH) (auto simp: store_state_absent)
    moreover from False Cons.prems have "r \<noteq> compute_record E obj" by auto
    ultimately show ?thesis using False by (simp add: store_state_absent)
  qed
qed

lemma store_all_container_written:
  "r \<in> compute_record E ` set os \<Longrightarrow> r \<notin> set (local_list_of_container_keys s) \<Longrightarrow>
   \<exists>obj \<in> set os. compute_record E obj = r
      \<and> container (foldl (store_state E world) s os) r = Some (archive_store E obj)"
proof (induction os arbitrary: s)
  case Nil
  then show ?case by simp
next
  case (Cons obj os)
  show ?case
  proof (cases "compute_record E obj = r")
    case True
    with Cons.prems have st: "store_state E world s obj =
       s\<lparr>container := (container s)(r \<mapsto> archive_store E obj),
         local_list_of_container_keys := local_list_of_container_keys s @ [r]\<rparr>"
      by (simp add: store_state_absent)
    have "container (foldl (store_state E world) (store_state E world s obj) os) r
        = container (store_state E world s obj) r"
      by (rule store_all_container_kept) (simp add: st)
    with st True show ?thesis by auto
  next
    case False
    with Cons.prems have "r \<in> compute_record E ` set os" by auto
    moreover from False Cons.prems have "r \<notin> set (local_list_of_container_keys (store_state E world s obj))"
      by (cases "compute_record E obj \<in> set (local_list_of_container_keys s)")
         (auto simp: store_state_present store_state_absent)
    ultimately show ?thesis using Cons.IH[of "store_state E world s obj"] by auto
  qed
qed

lemma store_all_present:
  "compute_record E ` set os \<subseteq> set (local_list_of_container_keys s) \<Longrightarrow>
   foldl (store_state E world) s os =
     s\<lparr>cache_stores := cache_stores s + (if rank world = 0 then of_nat (length os) else 0)\<rparr>"
proof (induction os arbitrary: s)
  case Nil
  then show ?case by simp
next
  case (Cons obj os)
  then show ?case by (simp add: store_state_present algebra_simps)
qed

text \<open>
  C2. Two stores of the same value, one after the other on the same rank, return the
  same record list, and the second writes nothing: container and ledger stay as the
  first store left them. The first store appends to the ledger, once each, exactly the
  records of the value that the ledger did not hold, and writes a blob at exactly
  those records; what the ledger already held, and every other record, keeps its blob.
  For one object: the blob is written and the record appended when the record is not
  in the ledger, and neither happens when it is.
\<close>

theorem store_twice:
  assumes "store E s world v = (rl1, s1)" and "store E s1 world v = (rl2, s2)"
  shows "rl2 = rl1
    \<and> container s2 = container s1
    \<and> local_list_of_container_keys s2 = local_list_of_container_keys s1
    \<and> set rl1 \<subseteq> set (local_list_of_container_keys s1)
    \<and> (\<exists>new. local_list_of_container_keys s1 = local_list_of_container_keys s @ new
           \<and> distinct new \<and> set new = set rl1 - set (local_list_of_container_keys s))
    \<and> (\<forall>r. r \<in> set (local_list_of_container_keys s) \<or> r \<notin> set rl1 \<longrightarrow>
           container s1 r = container s r)
    \<and> (\<forall>r. r \<in> set rl1 \<and> r \<notin> set (local_list_of_container_keys s) \<longrightarrow>
           (\<exists>obj \<in> set (leaves v). compute_record E obj = r
               \<and> container s1 r = Some (archive_store E obj)))
    \<and> (is_in_container s (compute_record E obj) \<longrightarrow>
           container (snd (store_other E s world obj)) = container s
         \<and> local_list_of_container_keys (snd (store_other E s world obj)) =
             local_list_of_container_keys s)
    \<and> (\<not> is_in_container s (compute_record E obj) \<longrightarrow>
           container (snd (store_other E s world obj)) =
             (container s)(compute_record E obj \<mapsto> archive_store E obj)
         \<and> local_list_of_container_keys (snd (store_other E s world obj)) =
             local_list_of_container_keys s @ [compute_record E obj])"
proof -
  let ?os = "leaves v"
  from assms have rl1: "rl1 = map (compute_record E) ?os"
    and s1: "s1 = foldl (store_state E world) s ?os"
    and rl2: "rl2 = map (compute_record E) ?os"
    and s2: "s2 = foldl (store_state E world) s1 ?os"
    by (simp_all add: store_eq_leaves)
  have sub: "compute_record E ` set ?os \<subseteq> set (local_list_of_container_keys s1)"
    unfolding s1 store_all_ledger_set by simp
  have second: "s2 = s1\<lparr>cache_stores := cache_stores s1 +
      (if rank world = 0 then of_nat (length ?os) else 0)\<rparr>"
    unfolding s2 by (rule store_all_present [OF sub])
  have led: "\<exists>new. local_list_of_container_keys s1 = local_list_of_container_keys s @ new
           \<and> distinct new \<and> set new = set rl1 - set (local_list_of_container_keys s)"
    using store_all_ledger [of E world s ?os] by (simp add: rl1 s1)
  have kept: "\<forall>r. r \<in> set (local_list_of_container_keys s) \<or> r \<notin> set rl1 \<longrightarrow>
           container s1 r = container s r"
    using store_all_container_kept [of _ s E ?os world] by (simp add: rl1 s1)
  have written: "\<forall>r. r \<in> set rl1 \<and> r \<notin> set (local_list_of_container_keys s) \<longrightarrow>
           (\<exists>obj \<in> set ?os. compute_record E obj = r
               \<and> container s1 r = Some (archive_store E obj))"
    using store_all_container_written [of _ E ?os s world] by (simp add: rl1 s1)
  have leaf1: "is_in_container s (compute_record E obj) \<longrightarrow>
           container (snd (store_other E s world obj)) = container s
         \<and> local_list_of_container_keys (snd (store_other E s world obj)) =
             local_list_of_container_keys s"
    by (simp add: store_other_eq store_state_present is_in_container_def)
  have leaf2: "\<not> is_in_container s (compute_record E obj) \<longrightarrow>
           container (snd (store_other E s world obj)) =
             (container s)(compute_record E obj \<mapsto> archive_store E obj)
         \<and> local_list_of_container_keys (snd (store_other E s world obj)) =
             local_list_of_container_keys s @ [compute_record E obj]"
    by (simp add: store_other_eq store_state_absent is_in_container_def)
  from sub have "set rl1 \<subseteq> set (local_list_of_container_keys s1)" by (simp add: rl1)
  with rl1 rl2 second led kept written leaf1 leaf2 show ?thesis by simp
qed

theorem store_twice_witness:
  "fst (store demo (snd (store demo (new_Cloud 0 0) rank0 demo_tuple)) rank0 demo_tuple) = [26, 17, 45, 53, 26]
   \<and> fst (store demo (new_Cloud 0 0) rank0 demo_tuple) = [26, 17, 45, 53, 26]
   \<and> container (snd (store demo (snd (store demo (new_Cloud 0 0) rank0 demo_tuple)) rank0 demo_tuple)) =
       container (snd (store demo (new_Cloud 0 0) rank0 demo_tuple))
   \<and> local_list_of_container_keys
       (snd (store demo (snd (store demo (new_Cloud 0 0) rank0 demo_tuple)) rank0 demo_tuple)) = [26, 17, 45, 53]"
proof -
  have a: "fst (store demo (new_Cloud 0 0) rank0 demo_tuple) = [26, 17, 45, 53, 26]"
    by code_simp
  have b: "local_list_of_container_keys (snd (store demo (new_Cloud 0 0) rank0 demo_tuple)) = [26, 17, 45, 53]"
    by code_simp
  from store_twice [OF surjective_pairing surjective_pairing, of demo "new_Cloud 0 0" rank0 demo_tuple] a b
  show ?thesis by simp
qed

text \<open>
  C3. When every record of the value is already in the ledger, the store returns the
  record list a fresh cloud would return, writes nothing (container and ledger are
  unchanged) and changes the state at the counter of skipped stores only, which grows
  by the number of records on rank 0 and stays on every other rank.
\<close>

theorem store_already_present:
  assumes "set (fst (store E s world v)) \<subseteq> set (local_list_of_container_keys s)"
  shows "fst (store E s world v) = fst (store E (new_Cloud rd st) world v)
    \<and> snd (store E s world v) =
        s\<lparr>cache_stores := cache_stores s +
            (if rank world = 0 then of_nat (Recordlist_size (fst (store E s world v))) else 0)\<rparr>
    \<and> container (snd (store E s world v)) = container s
    \<and> local_list_of_container_keys (snd (store E s world v)) = local_list_of_container_keys s
    \<and> (is_in_container s (compute_record E obj) \<longrightarrow>
         store_other E s world obj =
           (Recordlist_single (compute_record E obj),
            if rank world = 0 then s\<lparr>cache_stores := cache_stores s + 1\<rparr> else s))"
proof -
  from assms have sub: "compute_record E ` set (leaves v) \<subseteq> set (local_list_of_container_keys s)"
    by (simp add: store_eq_leaves)
  have "snd (store E s world v) =
        s\<lparr>cache_stores := cache_stores s +
            (if rank world = 0 then of_nat (length (leaves v)) else 0)\<rparr>"
    using store_all_present [OF sub] by (simp add: store_eq_leaves)
  moreover have "is_in_container s (compute_record E obj) \<longrightarrow>
         store_other E s world obj =
           (Recordlist_single (compute_record E obj),
            if rank world = 0 then s\<lparr>cache_stores := cache_stores s + 1\<rparr> else s)"
    by (simp add: store_other_eq store_state_present is_in_container_def Recordlist_single_def)
  ultimately show ?thesis
    by (simp add: store_eq_leaves Recordlist_size_def)
qed

theorem store_already_present_witness:
  "fst (store demo (snd (store demo (new_Cloud 0 0) rank0 demo_tuple)) rank0 demo_tuple) =
     fst (store demo (new_Cloud 0 0) rank0 demo_tuple)
   \<and> cache_stores (snd (store demo (snd (store demo (new_Cloud 0 0) rank0 demo_tuple)) rank0 demo_tuple)) =
       cache_stores (snd (store demo (new_Cloud 0 0) rank0 demo_tuple)) + 5
   \<and> cache_stores (snd (store demo (snd (store demo (new_Cloud 0 0) rank0 demo_tuple)) rank1 demo_tuple)) =
       cache_stores (snd (store demo (new_Cloud 0 0) rank0 demo_tuple))
   \<and> container (snd (store demo (snd (store demo (new_Cloud 0 0) rank0 demo_tuple)) rank0 demo_tuple)) =
       container (snd (store demo (new_Cloud 0 0) rank0 demo_tuple))"
proof -
  let ?s1 = "snd (store demo (new_Cloud 0 0) rank0 demo_tuple)"
  have h0: "set (fst (store demo ?s1 rank0 demo_tuple)) \<subseteq> set (local_list_of_container_keys ?s1)"
    by code_simp
  have h1: "set (fst (store demo ?s1 rank1 demo_tuple)) \<subseteq> set (local_list_of_container_keys ?s1)"
    by code_simp
  have n: "Recordlist_size (fst (store demo ?s1 rank0 demo_tuple)) = 5" by code_simp
  have r: "rank rank0 = 0" "rank rank1 = 1" by (simp_all add: rank0_def rank1_def)
  from store_already_present [OF h0, where rd = 0 and st = 0]
    store_already_present [OF h1, where rd = 0 and st = 0] n r
  show ?thesis by simp
qed

section \<open>Loading one record\<close>

lemma load_other_Nil: "load_other E s world T [] = (Inl PopFrontOfEmptyList, s)"
  by (simp add: load_other_def)

lemma load_other_hit:
  "cached_objects s record = Some obj \<Longrightarrow>
   load_other E s world T (record # rest) =
     (if type_of_obj obj = T then Inr (obj, rest) else Inl CacheTypeMismatch, count_read s world)"
  by (simp add: load_other_def is_cached_def load_from_cache_def count_read_def Let_def)

lemma load_other_miss:
  "cached_objects s record = None \<Longrightarrow>
   load_other E s world T (record # rest) =
     (if force_load_from_cache s then (Inl CacheRequiredMiss, s)
      else case fetch E s T record of
             Inl e \<Rightarrow> (Inl e, s)
           | Inr target \<Rightarrow> (Inr (target, rest), cache s target record))"
  by (simp add: load_other_def is_cached_def)

lemma count_read_frame:
  "cached_objects (count_read s world) = cached_objects s"
  "container (count_read s world) = container s"
  "force_load_from_cache (count_read s world) = force_load_from_cache s"
  "local_list_of_container_keys (count_read s world) = local_list_of_container_keys s"
  by (simp_all add: count_read_def)

lemma fetch_type: "fetch E s T record = Inr target \<Longrightarrow> type_of_obj target = T"
  by (auto simp: fetch_def split: option.splits if_splits)

text \<open>
  C5. With \<open>force_load_from_cache\<close> set, loading a record that is not cached fails with
  \<open>CacheRequiredMiss\<close> and leaves the cloud as it was: nothing is fetched from the
  container and nothing is put into the cache, whatever the container holds. This is so
  for an object of any type and for a tuple whose first member meets such a record.
\<close>

theorem forced_load_misses:
  assumes "force_load_from_cache s" and "\<not> is_cached s record"
  shows "load_other E s world T (record # rest) = (Inl CacheRequiredMiss, s)
    \<and> load E s world (TObj T) (record # rest) = (Inl CacheRequiredMiss, s)
    \<and> load E s world (TTuple (T # Ts)) (record # rest) = (Inl CacheRequiredMiss, s)"
proof -
  from assms have a: "load_other E s world T' (record # rest) = (Inl CacheRequiredMiss, s)" for T'
    by (simp add: load_other_miss is_cached_def)
  then have b: "load_internal E s world T (record # rest) = (Inl CacheRequiredMiss, s)"
    by (simp add: load_internal_def load_madness_function_vector_def)
  with a show ?thesis by simp
qed

theorem forced_load_misses_witness:
  "fst (load demo miss_cloud rank0 (TObj TInt) [26]) = Inl CacheRequiredMiss
   \<and> fst (load demo (set_force_load_from_cache miss_cloud False) rank0 (TObj TInt) [26]) = Inr (Obj (VInt 3))"
proof -
  have h: "force_load_from_cache miss_cloud" "\<not> is_cached miss_cloud 26"
    by code_simp+
  have "fst (load demo (set_force_load_from_cache miss_cloud False) rank0 (TObj TInt) [26]) = Inr (Obj (VInt 3))"
    by code_simp
  with forced_load_misses [OF h] show ?thesis by simp
qed

section \<open>Loading again what has been loaded\<close>

lemma reads_only_refl: "reads_only s s"
  unfolding reads_only_def by simp

lemma reads_only_trans: "reads_only s s' \<Longrightarrow> reads_only s' s'' \<Longrightarrow> reads_only s s''"
  unfolding reads_only_def by (cases s, cases s', cases s'') simp

lemma reads_only_count_read: "reads_only s (count_read s world)"
  unfolding reads_only_def count_read_def by simp

lemma reads_only_frame:
  assumes "reads_only s s'"
  shows "cached_objects s' = cached_objects s" "container s' = container s"
    "force_load_from_cache s' = force_load_from_cache s"
    "local_list_of_container_keys s' = local_list_of_container_keys s"
    "cache_stores s' = cache_stores s"
  using assms unfolding reads_only_def by (cases s; cases s'; simp)+

lemma load_other_success:
  assumes "load_other E s world T rl = (Inr (obj, rest), s1)"
  shows "\<exists>record. rl = record # rest \<and> cached_objects s1 record = Some obj
           \<and> type_of_obj obj = T \<and> cached_objects s \<subseteq>\<^sub>m cached_objects s1"
proof (cases rl)
  case Nil
  with assms show ?thesis by (simp add: load_other_Nil)
next
  case (Cons r rest')
  show ?thesis
  proof (cases "cached_objects s r")
    case None
    with assms Cons show ?thesis
      by (auto simp: load_other_miss cache_def map_le_def fetch_type
               split: if_splits sum.splits)
  next
    case (Some obj')
    with assms Cons show ?thesis
      by (auto simp: load_other_hit count_read_frame split: if_splits)
  qed
qed

lemma load_other_replay:
  assumes "load_other E s world T rl = (Inr (obj, rest), s1)"
    and "cached_objects s1 \<subseteq>\<^sub>m cached_objects s2"
  shows "load_other E2 s2 world2 T rl = (Inr (obj, rest), count_read s2 world2)"
proof -
  from load_other_success [OF assms(1)] obtain key where r:
    "rl = key # rest" "cached_objects s1 key = Some obj" "type_of_obj obj = T"
    by blast
  with assms(2) have "cached_objects s2 key = Some obj"
    by (auto simp: map_le_def dom_def)
  with r show ?thesis by (simp add: load_other_hit)
qed

lemma load_functions_success:
  "load_functions E s world n rl = (Inr (fs, rest), s1) \<Longrightarrow>
   cached_objects s \<subseteq>\<^sub>m cached_objects s1 \<and> length fs = n \<and> length rl = n + length rest
     \<and> (\<exists>used. rl = used @ rest)"
proof (induction n arbitrary: s rl fs)
  case 0
  then show ?case by simp
next
  case (Suc n)
  from Suc.prems obtain f rl' s' fs' where
    first: "load_other E s world TFunction rl = (Inr (VFunction f, rl'), s')"
    and more: "load_functions E s' world n rl' = (Inr (fs', rest), s1)"
    and fs: "fs = f # fs'"
    by (auto split: prod.splits sum.splits cached_objT.splits)
  from load_other_success [OF first] obtain r where "cached_objects s \<subseteq>\<^sub>m cached_objects s'"
    and "rl = r # rl'" by auto
  with Suc.IH [OF more] fs show ?case by (auto intro: map_le_trans)
qed

lemma load_functions_replay:
  "load_functions E s world n rl = (Inr (fs, rest), s1) \<Longrightarrow>
   cached_objects s1 \<subseteq>\<^sub>m cached_objects s2 \<Longrightarrow>
   \<exists>s3. load_functions E2 s2 world2 n rl = (Inr (fs, rest), s3) \<and> reads_only s2 s3"
proof (induction n arbitrary: s rl fs s2)
  case 0
  then show ?case by (auto intro: reads_only_refl)
next
  case (Suc n)
  from Suc.prems(1) obtain f rl' s' fs' where
    first: "load_other E s world TFunction rl = (Inr (VFunction f, rl'), s')"
    and more: "load_functions E s' world n rl' = (Inr (fs', rest), s1)"
    and fs: "fs = f # fs'"
    by (auto split: prod.splits sum.splits cached_objT.splits)
  from load_functions_success [OF more] Suc.prems(2)
  have le: "cached_objects s' \<subseteq>\<^sub>m cached_objects s2" by (auto intro: map_le_trans)
  have again: "load_other E2 s2 world2 TFunction rl = (Inr (VFunction f, rl'), count_read s2 world2)"
    by (rule load_other_replay [OF first le])
  from Suc.prems(2) have "cached_objects s1 \<subseteq>\<^sub>m cached_objects (count_read s2 world2)"
    by (simp add: count_read_frame)
  from Suc.IH [OF more this] obtain s3 where
    "load_functions E2 (count_read s2 world2) world2 n rl' = (Inr (fs', rest), s3)"
    "reads_only (count_read s2 world2) s3" by blast
  with again fs show ?case
    by (auto intro: reads_only_trans [OF reads_only_count_read])
qed

lemma load_internal_success:
  assumes "load_internal E s world T rl = (Inr (obj, rest), s1)"
  shows "cached_objects s \<subseteq>\<^sub>m cached_objects s1 \<and> type_of_obj obj = T
       \<and> length rest < length rl \<and> (\<exists>used. rl = used @ rest)"
proof (cases "T = TFuncVec")
  case False
  with assms have "load_other E s world T rl = (Inr (obj, rest), s1)"
    by (simp add: load_internal_def)
  from load_other_success [OF this] show ?thesis by auto
next
  case True
  with assms obtain sz rl' s' fs where
    first: "load_other E s world TSize rl = (Inr (VSize sz, rl'), s')"
    and more: "load_functions E s' world (unat sz) rl' = (Inr (fs, rest), s1)"
    and obj: "obj = VFuncVec fs"
    by (auto simp: load_internal_def load_madness_function_vector_def
             split: prod.splits sum.splits cached_objT.splits)
  from load_other_success [OF first] obtain key where
    a: "rl = key # rl'" "cached_objects s \<subseteq>\<^sub>m cached_objects s'" by blast
  from load_functions_success [OF more] have
    b: "cached_objects s' \<subseteq>\<^sub>m cached_objects s1" "\<exists>used. rl' = used @ rest" by auto
  from b(2) obtain used where "rl' = used @ rest" ..
  with a have "rl = (key # used) @ rest" by simp
  then have "\<exists>used. rl = used @ rest" ..
  with a b obj True show ?thesis by (auto intro: map_le_trans)
qed

lemma load_internal_replay:
  assumes "load_internal E s world T rl = (Inr (obj, rest), s1)"
    and "cached_objects s1 \<subseteq>\<^sub>m cached_objects s2"
  shows "\<exists>s3. load_internal E2 s2 world2 T rl = (Inr (obj, rest), s3) \<and> reads_only s2 s3"
proof (cases "T = TFuncVec")
  case False
  with assms(1) have "load_other E s world T rl = (Inr (obj, rest), s1)"
    by (simp add: load_internal_def)
  from load_other_replay [OF this assms(2)] False show ?thesis
    by (auto simp: load_internal_def intro: reads_only_count_read)
next
  case True
  with assms(1) obtain sz rl' s' fs where
    first: "load_other E s world TSize rl = (Inr (VSize sz, rl'), s')"
    and more: "load_functions E s' world (unat sz) rl' = (Inr (fs, rest), s1)"
    and obj: "obj = VFuncVec fs"
    by (auto simp: load_internal_def load_madness_function_vector_def
             split: prod.splits sum.splits cached_objT.splits)
  from load_functions_success [OF more] assms(2)
  have le: "cached_objects s' \<subseteq>\<^sub>m cached_objects s2" by (auto intro: map_le_trans)
  have again: "load_other E2 s2 world2 TSize rl = (Inr (VSize sz, rl'), count_read s2 world2)"
    by (rule load_other_replay [OF first le])
  from assms(2) have "cached_objects s1 \<subseteq>\<^sub>m cached_objects (count_read s2 world2)"
    by (simp add: count_read_frame)
  from load_functions_replay [OF more this] obtain s3 where
    "load_functions E2 (count_read s2 world2) world2 (unat sz) rl' = (Inr (fs, rest), s3)"
    "reads_only (count_read s2 world2) s3" by blast
  with again obj True show ?thesis
    by (auto simp: load_internal_def load_madness_function_vector_def
             intro: reads_only_trans [OF reads_only_count_read])
qed

lemma load_tuple_success:
  "load_tuple E s world Ts rl = (Inr (objs, rest), s1) \<Longrightarrow>
   cached_objects s \<subseteq>\<^sub>m cached_objects s1 \<and> map type_of_obj objs = Ts
     \<and> (\<exists>used. rl = used @ rest)"
proof (induction Ts arbitrary: s rl objs)
  case Nil
  then show ?case by simp
next
  case (Cons T Ts)
  from Cons.prems obtain obj rl' s' objs' where
    first: "load_internal E s world T rl = (Inr (obj, rl'), s')"
    and more: "load_tuple E s' world Ts rl' = (Inr (objs', rest), s1)"
    and objs: "objs = obj # objs'"
    by (auto split: prod.splits sum.splits)
  from load_internal_success [OF first] Cons.IH [OF more] objs show ?case
    by (auto intro: map_le_trans)
qed

lemma load_tuple_replay:
  "load_tuple E s world Ts rl = (Inr (objs, rest), s1) \<Longrightarrow>
   cached_objects s1 \<subseteq>\<^sub>m cached_objects s2 \<Longrightarrow>
   \<exists>s3. load_tuple E2 s2 world2 Ts rl = (Inr (objs, rest), s3) \<and> reads_only s2 s3"
proof (induction Ts arbitrary: s rl objs s2)
  case Nil
  then show ?case by (auto intro: reads_only_refl)
next
  case (Cons T Ts)
  from Cons.prems(1) obtain obj rl' s' objs' where
    first: "load_internal E s world T rl = (Inr (obj, rl'), s')"
    and more: "load_tuple E s' world Ts rl' = (Inr (objs', rest), s1)"
    and objs: "objs = obj # objs'"
    by (auto split: prod.splits sum.splits)
  from load_tuple_success [OF more] Cons.prems(2)
  have "cached_objects s' \<subseteq>\<^sub>m cached_objects s2" by (auto intro: map_le_trans)
  from load_internal_replay [OF first this] obtain s2' where
    again: "load_internal E2 s2 world2 T rl = (Inr (obj, rl'), s2')" and ro: "reads_only s2 s2'"
    by blast
  from Cons.prems(2) ro have "cached_objects s1 \<subseteq>\<^sub>m cached_objects s2'"
    by (simp add: reads_only_frame)
  from Cons.IH [OF more this] obtain s3 where
    "load_tuple E2 s2' world2 Ts rl' = (Inr (objs', rest), s3)" "reads_only s2' s3" by blast
  with again objs ro show ?case by (auto intro: reads_only_trans)
qed

lemma load_success:
  assumes "load E s world LT rl = (Inr v, s1)"
  shows "cached_objects s \<subseteq>\<^sub>m cached_objects s1"
proof (cases LT)
  case (TObj T)
  with assms obtain obj rest where "load_internal E s world T rl = (Inr (obj, rest), s1)"
    by (auto split: prod.splits sum.splits)
  from load_internal_success [OF this] show ?thesis by simp
next
  case (TTuple Ts)
  with assms obtain objs rest where "load_tuple E s world Ts rl = (Inr (objs, rest), s1)"
    by (auto split: prod.splits sum.splits)
  from load_tuple_success [OF this] show ?thesis by simp
qed

lemma load_replay:
  assumes "load E s world LT rl = (Inr v, s1)"
    and "cached_objects s1 \<subseteq>\<^sub>m cached_objects s2"
  shows "\<exists>s3. load E2 s2 world2 LT rl = (Inr v, s3) \<and> reads_only s2 s3"
proof (cases LT)
  case (TObj T)
  with assms(1) obtain obj rest where
    a: "load_internal E s world T rl = (Inr (obj, rest), s1)" and v: "v = Obj obj"
    by (auto split: prod.splits sum.splits)
  from load_internal_replay [OF a assms(2), of E2 world2] obtain s3 where
    "load_internal E2 s2 world2 T rl = (Inr (obj, rest), s3)" "reads_only s2 s3" by blast
  with v TObj show ?thesis by simp
next
  case (TTuple Ts)
  with assms(1) obtain objs rest where
    a: "load_tuple E s world Ts rl = (Inr (objs, rest), s1)" and v: "v = Tuple (map Obj objs)"
    by (auto split: prod.splits sum.splits)
  from load_tuple_replay [OF a assms(2), of E2 world2] obtain s3 where
    "load_tuple E2 s2 world2 Ts rl = (Inr (objs, rest), s3)" "reads_only s2 s3" by blast
  with v TTuple show ?thesis by simp
qed

text \<open>
  C9. \<^verbatim>\<open>load\<close> takes the record list by value and consumes a copy: the loading of an
  object shortens the copy, and the list the caller holds can be passed again. A load
  that has returned a value returns the same value when it is called again with the
  same list, on any world, any number of times: each further call changes nothing but
  the counter of cache reads.
\<close>

theorem load_again:
  assumes "load E s world LT recordlist = (Inr v, s')"
  shows "fst (load E s' world2 LT recordlist) = Inr v
    \<and> reads_only s' (snd (load E s' world2 LT recordlist))
    \<and> fst (load E (snd (load E s' world2 LT recordlist)) world3 LT recordlist) = Inr v
    \<and> (\<forall>T obj rlist s0. load_internal E s world T recordlist = (Inr (obj, rlist), s0) \<longrightarrow>
          length rlist < length recordlist)"
proof -
  from load_replay [OF assms map_le_refl] obtain s2 where
    second: "load E s' world2 LT recordlist = (Inr v, s2)" and ro: "reads_only s' s2"
    by blast
  from load_success [OF second] have "cached_objects s' \<subseteq>\<^sub>m cached_objects s2" .
  from load_replay [OF assms this] obtain s3 where
    third: "load E s2 world3 LT recordlist = (Inr v, s3)" by blast
  have "\<forall>T obj rlist s0. load_internal E s world T recordlist = (Inr (obj, rlist), s0) \<longrightarrow>
          length rlist < length recordlist"
    using load_internal_success by blast
  with second ro third show ?thesis by simp
qed

theorem load_again_witness:
  "fst (load demo (snd stored_vector) rank1 (TObj TFuncVec) (fst stored_vector)) = Inr (Obj (VFuncVec [5, 6]))
   \<and> fst (load demo
           (snd (load demo (snd stored_vector) rank1 (TObj TFuncVec) (fst stored_vector)))
           rank1 (TObj TFuncVec) (fst stored_vector)) = Inr (Obj (VFuncVec [5, 6]))"
proof -
  have a: "fst (load demo (snd stored_vector) rank1 (TObj TFuncVec) (fst stored_vector)) = Inr (Obj (VFuncVec [5, 6]))"
    by code_simp
  then have "load demo (snd stored_vector) rank1 (TObj TFuncVec) (fst stored_vector) =
      (Inr (Obj (VFuncVec [5, 6])), snd (load demo (snd stored_vector) rank1 (TObj TFuncVec) (fst stored_vector)))"
    by (metis surjective_pairing)
  from load_again [OF this, of rank1 rank1] a show ?thesis by simp
qed

section \<open>Loading from the cache\<close>

lemma load_other_cached:
  assumes "cached_objects sa = cached_objects sb" and "set rl \<subseteq> dom (cached_objects sa)"
  shows "fst (load_other Ea sa wa T rl) = fst (load_other Eb sb wb T rl)
    \<and> cached_objects (snd (load_other Ea sa wa T rl)) = cached_objects sa
    \<and> cached_objects (snd (load_other Eb sb wb T rl)) = cached_objects sb"
proof (cases rl)
  case Nil
  then show ?thesis by (simp add: load_other_Nil)
next
  case (Cons r rest)
  with assms obtain obj where "cached_objects sa r = Some obj" "cached_objects sb r = Some obj"
    by auto
  with Cons show ?thesis by (simp add: load_other_hit count_read_frame)
qed

lemma load_functions_cached:
  "cached_objects sa = cached_objects sb \<Longrightarrow> set rl \<subseteq> dom (cached_objects sa) \<Longrightarrow>
   fst (load_functions Ea sa wa n rl) = fst (load_functions Eb sb wb n rl)
    \<and> cached_objects (snd (load_functions Ea sa wa n rl)) = cached_objects sa
    \<and> cached_objects (snd (load_functions Eb sb wb n rl)) = cached_objects sb"
proof (induction n arbitrary: sa sb rl)
  case 0
  then show ?case by simp
next
  case (Suc n)
  obtain ra sa' where a: "load_other Ea sa wa TFunction rl = (ra, sa')" by (cases "load_other Ea sa wa TFunction rl")
  obtain rb sb' where b: "load_other Eb sb wb TFunction rl = (rb, sb')" by (cases "load_other Eb sb wb TFunction rl")
  have "fst (load_other Ea sa wa TFunction rl) = fst (load_other Eb sb wb TFunction rl)
    \<and> cached_objects (snd (load_other Ea sa wa TFunction rl)) = cached_objects sa
    \<and> cached_objects (snd (load_other Eb sb wb TFunction rl)) = cached_objects sb"
    using Suc.prems by (rule load_other_cached)
  with a b have eq: "rb = ra" and ca: "cached_objects sa' = cached_objects sa"
    and cb: "cached_objects sb' = cached_objects sb" by simp_all
  show ?case
  proof (cases ra)
    case (Inl e)
    with a b eq ca cb show ?thesis by simp
  next
    case (Inr p)
    obtain obj rest where p: "p = (obj, rest)" by (cases p)
    from load_other_success [of Ea sa wa TFunction rl obj rest sa'] a Inr p
    obtain r where rl: "rl = r # rest" by auto
    show ?thesis
    proof (cases obj)
      case (VFunction f)
      from rl Suc.prems ca cb have "cached_objects sa' = cached_objects sb'"
        and "set rest \<subseteq> dom (cached_objects sa')" by auto
      then have ih: "fst (load_functions Ea sa' wa n rest) = fst (load_functions Eb sb' wb n rest)
          \<and> cached_objects (snd (load_functions Ea sa' wa n rest)) = cached_objects sa'
          \<and> cached_objects (snd (load_functions Eb sb' wb n rest)) = cached_objects sb'"
        by (rule Suc.IH)
      obtain qa ta where qa: "load_functions Ea sa' wa n rest = (qa, ta)"
        by (cases "load_functions Ea sa' wa n rest")
      obtain qb tb where qb: "load_functions Eb sb' wb n rest = (qb, tb)"
        by (cases "load_functions Eb sb' wb n rest")
      from ih qa qb have "qb = qa" "cached_objects ta = cached_objects sa'"
        "cached_objects tb = cached_objects sb'" by simp_all
      with a b eq Inr p VFunction ca cb qa qb show ?thesis
        by (cases qa) auto
    qed (use a b eq Inr p ca cb in simp_all)
  qed
qed

lemma load_internal_cached:
  assumes "cached_objects sa = cached_objects sb" and "set rl \<subseteq> dom (cached_objects sa)"
  shows "fst (load_internal Ea sa wa T rl) = fst (load_internal Eb sb wb T rl)
    \<and> cached_objects (snd (load_internal Ea sa wa T rl)) = cached_objects sa
    \<and> cached_objects (snd (load_internal Eb sb wb T rl)) = cached_objects sb"
proof (cases "T = TFuncVec")
  case False
  with load_other_cached [OF assms] show ?thesis by (simp add: load_internal_def)
next
  case True
  obtain ra sa' where a: "load_other Ea sa wa TSize rl = (ra, sa')" by (cases "load_other Ea sa wa TSize rl")
  obtain rb sb' where b: "load_other Eb sb wb TSize rl = (rb, sb')" by (cases "load_other Eb sb wb TSize rl")
  have "fst (load_other Ea sa wa TSize rl) = fst (load_other Eb sb wb TSize rl)
    \<and> cached_objects (snd (load_other Ea sa wa TSize rl)) = cached_objects sa
    \<and> cached_objects (snd (load_other Eb sb wb TSize rl)) = cached_objects sb"
    using assms by (rule load_other_cached)
  with a b have eq: "rb = ra" and ca: "cached_objects sa' = cached_objects sa"
    and cb: "cached_objects sb' = cached_objects sb" by simp_all
  show ?thesis
  proof (cases ra)
    case (Inl e)
    with a b eq ca cb True show ?thesis
      by (simp add: load_internal_def load_madness_function_vector_def)
  next
    case (Inr p)
    obtain obj rest where p: "p = (obj, rest)" by (cases p)
    from load_other_success [of Ea sa wa TSize rl obj rest sa'] a Inr p
    obtain r where rl: "rl = r # rest" by auto
    show ?thesis
    proof (cases obj)
      case (VSize sz)
      from rl assms ca cb have "cached_objects sa' = cached_objects sb'"
        and "set rest \<subseteq> dom (cached_objects sa')" by auto
      then have ih: "fst (load_functions Ea sa' wa (unat sz) rest) =
            fst (load_functions Eb sb' wb (unat sz) rest)
          \<and> cached_objects (snd (load_functions Ea sa' wa (unat sz) rest)) = cached_objects sa'
          \<and> cached_objects (snd (load_functions Eb sb' wb (unat sz) rest)) = cached_objects sb'"
        by (rule load_functions_cached)
      obtain qa ta where qa: "load_functions Ea sa' wa (unat sz) rest = (qa, ta)"
        by (cases "load_functions Ea sa' wa (unat sz) rest")
      obtain qb tb where qb: "load_functions Eb sb' wb (unat sz) rest = (qb, tb)"
        by (cases "load_functions Eb sb' wb (unat sz) rest")
      from ih qa qb have "qb = qa" "cached_objects ta = cached_objects sa'"
        "cached_objects tb = cached_objects sb'" by simp_all
      with a b eq Inr p VSize ca cb True qa qb show ?thesis
        by (cases qa) (auto simp: load_internal_def load_madness_function_vector_def)
    qed (use a b eq Inr p ca cb True in
          \<open>simp_all add: load_internal_def load_madness_function_vector_def\<close>)
  qed
qed

lemma load_tuple_cached:
  "cached_objects sa = cached_objects sb \<Longrightarrow> set rl \<subseteq> dom (cached_objects sa) \<Longrightarrow>
   fst (load_tuple Ea sa wa Ts rl) = fst (load_tuple Eb sb wb Ts rl)
    \<and> cached_objects (snd (load_tuple Ea sa wa Ts rl)) = cached_objects sa
    \<and> cached_objects (snd (load_tuple Eb sb wb Ts rl)) = cached_objects sb"
proof (induction Ts arbitrary: sa sb rl)
  case Nil
  then show ?case by simp
next
  case (Cons T Ts)
  obtain ra sa' where a: "load_internal Ea sa wa T rl = (ra, sa')" by (cases "load_internal Ea sa wa T rl")
  obtain rb sb' where b: "load_internal Eb sb wb T rl = (rb, sb')" by (cases "load_internal Eb sb wb T rl")
  have "fst (load_internal Ea sa wa T rl) = fst (load_internal Eb sb wb T rl)
    \<and> cached_objects (snd (load_internal Ea sa wa T rl)) = cached_objects sa
    \<and> cached_objects (snd (load_internal Eb sb wb T rl)) = cached_objects sb"
    using Cons.prems by (rule load_internal_cached)
  with a b have eq: "rb = ra" and ca: "cached_objects sa' = cached_objects sa"
    and cb: "cached_objects sb' = cached_objects sb" by simp_all
  show ?case
  proof (cases ra)
    case (Inl e)
    with a b eq ca cb show ?thesis by simp
  next
    case (Inr p)
    obtain obj rest where p: "p = (obj, rest)" by (cases p)
    from load_internal_success [of Ea sa wa T rl obj rest sa'] a Inr p
    obtain used where rl: "rl = used @ rest" by auto
    from rl Cons.prems ca cb have "cached_objects sa' = cached_objects sb'"
      and "set rest \<subseteq> dom (cached_objects sa')" by auto
    then have ih: "fst (load_tuple Ea sa' wa Ts rest) = fst (load_tuple Eb sb' wb Ts rest)
        \<and> cached_objects (snd (load_tuple Ea sa' wa Ts rest)) = cached_objects sa'
        \<and> cached_objects (snd (load_tuple Eb sb' wb Ts rest)) = cached_objects sb'"
      by (rule Cons.IH)
    obtain qa ta where qa: "load_tuple Ea sa' wa Ts rest = (qa, ta)"
      by (cases "load_tuple Ea sa' wa Ts rest")
    obtain qb tb where qb: "load_tuple Eb sb' wb Ts rest = (qb, tb)"
      by (cases "load_tuple Eb sb' wb Ts rest")
    from ih qa qb have "qb = qa" "cached_objects ta = cached_objects sa'"
      "cached_objects tb = cached_objects sb'" by simp_all
    with a b eq Inr p ca cb qa qb show ?thesis
      by (cases qa) auto
  qed
qed

lemma load_cached:
  assumes "cached_objects sa = cached_objects sb" and "set rl \<subseteq> dom (cached_objects sa)"
  shows "fst (load Ea sa wa LT rl) = fst (load Eb sb wb LT rl)"
proof (cases LT)
  case (TObj T)
  obtain qa ta where qa: "load_internal Ea sa wa T rl = (qa, ta)"
    by (cases "load_internal Ea sa wa T rl")
  obtain qb tb where qb: "load_internal Eb sb wb T rl = (qb, tb)"
    by (cases "load_internal Eb sb wb T rl")
  have "fst (load_internal Ea sa wa T rl) = fst (load_internal Eb sb wb T rl)
    \<and> cached_objects (snd (load_internal Ea sa wa T rl)) = cached_objects sa
    \<and> cached_objects (snd (load_internal Eb sb wb T rl)) = cached_objects sb"
    using assms by (rule load_internal_cached)
  with qa qb have "qb = qa" by simp
  with qa qb TObj show ?thesis by (cases qa) auto
next
  case (TTuple Ts)
  obtain qa ta where qa: "load_tuple Ea sa wa Ts rl = (qa, ta)"
    by (cases "load_tuple Ea sa wa Ts rl")
  obtain qb tb where qb: "load_tuple Eb sb wb Ts rl = (qb, tb)"
    by (cases "load_tuple Eb sb wb Ts rl")
  have "fst (load_tuple Ea sa wa Ts rl) = fst (load_tuple Eb sb wb Ts rl)
    \<and> cached_objects (snd (load_tuple Ea sa wa Ts rl)) = cached_objects sa
    \<and> cached_objects (snd (load_tuple Eb sb wb Ts rl)) = cached_objects sb"
    using assms by (rule load_tuple_cached)
  with qa qb have "qb = qa" by simp
  with qa qb TTuple show ?thesis by (cases qa) auto
qed

text \<open>
  C4. When every record of the list is in the cache, a load with
  \<open>force_load_from_cache\<close> set and a load with it cleared return the same result. And
  a load with the flag cleared that returned a value, from the container or from the
  cache, is followed by a load with the flag set that returns the same value from the
  cache: the cache hit and the fetch from the container give the same value.
\<close>

theorem forced_load_agrees:
  "(set recordlist \<subseteq> dom (cached_objects s) \<longrightarrow>
      fst (load E (set_force_load_from_cache s True) world LT recordlist) =
      fst (load E (set_force_load_from_cache s False) world LT recordlist))
   \<and> (load E (set_force_load_from_cache s False) world LT recordlist = (Inr v, s') \<longrightarrow>
      fst (load E (set_force_load_from_cache s' True) world2 LT recordlist) = Inr v)"
proof -
  have a: "fst (load E (set_force_load_from_cache s True) world LT recordlist) =
           fst (load E (set_force_load_from_cache s False) world LT recordlist)"
    if "set recordlist \<subseteq> dom (cached_objects s)"
    using that by (intro load_cached) (simp_all add: set_force_load_from_cache_def)
  have b: "fst (load E (set_force_load_from_cache s' True) world2 LT recordlist) = Inr v"
    if l: "load E (set_force_load_from_cache s False) world LT recordlist = (Inr v, s')"
  proof -
    have "cached_objects s' \<subseteq>\<^sub>m cached_objects (set_force_load_from_cache s' True)"
      by (simp add: set_force_load_from_cache_def)
    from load_replay [OF l this, of E world2] show ?thesis by auto
  qed
  from a b show ?thesis by blast
qed

theorem forced_load_agrees_witness:
  "fst (load demo (set_force_load_from_cache warm_cloud True) rank1 (TObj TFuncVec) (fst stored_vector)) =
     fst (load demo (set_force_load_from_cache warm_cloud False) rank1 (TObj TFuncVec) (fst stored_vector))
   \<and> fst (load demo (set_force_load_from_cache warm_cloud True) rank1 (TObj TFuncVec) (fst stored_vector)) =
       Inr (Obj (VFuncVec [5, 6]))
   \<and> fst (load demo (set_force_load_from_cache (snd stored_vector) False) rank1 (TObj TFuncVec) (fst stored_vector)) =
       Inr (Obj (VFuncVec [5, 6]))
   \<and> fst (load demo
       (set_force_load_from_cache
          (snd (load demo (set_force_load_from_cache (snd stored_vector) False) rank1 (TObj TFuncVec) (fst stored_vector)))
          True)
       rank0 (TObj TFuncVec) (fst stored_vector)) = Inr (Obj (VFuncVec [5, 6]))"
proof -
  have h: "fst stored_vector = [17, 45, 53]" by code_simp
  have c: "cached_objects warm_cloud 17 \<noteq> None \<and> cached_objects warm_cloud 45 \<noteq> None
           \<and> cached_objects warm_cloud 53 \<noteq> None" by code_simp
  then have sub: "set (fst stored_vector) \<subseteq> dom (cached_objects warm_cloud)"
    unfolding h by auto
  have v: "fst (load demo (set_force_load_from_cache warm_cloud True) rank1 (TObj TFuncVec) (fst stored_vector)) =
       Inr (Obj (VFuncVec [5, 6]))" by code_simp
  have f: "fst (load demo (set_force_load_from_cache (snd stored_vector) False) rank1 (TObj TFuncVec) (fst stored_vector)) =
       Inr (Obj (VFuncVec [5, 6]))" by code_simp
  then have l: "load demo (set_force_load_from_cache (snd stored_vector) False) rank1 (TObj TFuncVec) (fst stored_vector) =
       (Inr (Obj (VFuncVec [5, 6])),
        snd (load demo (set_force_load_from_cache (snd stored_vector) False) rank1 (TObj TFuncVec) (fst stored_vector)))"
    by (metis surjective_pairing)
  from forced_load_agrees [of "fst stored_vector" warm_cloud demo rank1 "TObj TFuncVec"]
    forced_load_agrees [of "fst stored_vector" "snd stored_vector" demo rank1 "TObj TFuncVec"
       "Obj (VFuncVec [5, 6])" _ rank0] sub v f l
  show ?thesis by simp
qed

section \<open>Popping from the record list\<close>

lemma load_other_Cons: "fst (load_other E s world T (r # rest)) \<noteq> Inl PopFrontOfEmptyList"
proof (cases "cached_objects s r")
  case None
  then show ?thesis
    by (auto simp: load_other_miss fetch_def split: sum.splits option.splits if_splits)
next
  case (Some obj)
  then show ?thesis by (simp add: load_other_hit)
qed

lemma load_functions_enough:
  "n \<le> length rl \<Longrightarrow> fst (load_functions E s world n rl) \<noteq> Inl PopFrontOfEmptyList"
proof (induction n arbitrary: s rl)
  case 0
  then show ?case by simp
next
  case (Suc n)
  then obtain r rest where rl: "rl = r # rest" by (cases rl) auto
  obtain q s' where q: "load_other E s world TFunction rl = (q, s')"
    by (cases "load_other E s world TFunction rl")
  show ?case
  proof (cases q)
    case (Inl e)
    with q load_other_Cons [of E s world TFunction r rest] rl show ?thesis by auto
  next
    case (Inr p)
    obtain obj rest' where p: "p = (obj, rest')" by (cases p)
    from load_other_success [of E s world TFunction rl obj rest' s'] q Inr p rl
    have rest': "rest' = rest" by auto
    from Suc.prems rl have "n \<le> length rest" by simp
    from Suc.IH [OF this, of s'] q Inr p rest' show ?thesis
      by (cases obj) (auto split: prod.splits sum.splits)
  qed
qed

lemma demand_internal_positive: "1 \<le> demand_internal E s world T rl"
  by (auto simp: demand_internal_def split: prod.splits sum.splits cached_objT.splits)

lemma load_internal_enough:
  assumes "demand_internal E s world T rl \<le> length rl"
  shows "fst (load_internal E s world T rl) \<noteq> Inl PopFrontOfEmptyList"
proof -
  from assms demand_internal_positive [of E s world T rl]
  obtain r rest where rl: "rl = r # rest" by (cases rl) auto
  show ?thesis
  proof (cases "T = TFuncVec")
    case False
    with rl load_other_Cons show ?thesis by (simp add: load_internal_def)
  next
    case True
    obtain q s' where q: "load_other E s world TSize rl = (q, s')"
      by (cases "load_other E s world TSize rl")
    show ?thesis
    proof (cases q)
      case (Inl e)
      with q load_other_Cons [of E s world TSize r rest] rl True show ?thesis
        by (auto simp: load_internal_def load_madness_function_vector_def)
    next
      case (Inr p)
      obtain obj rest' where p: "p = (obj, rest')" by (cases p)
      from load_other_success [of E s world TSize rl obj rest' s'] q Inr p rl
      have rest': "rest' = rest" and ty: "type_of_obj obj = TSize" by auto
      from ty obtain sz where obj: "obj = VSize sz" by (cases obj) auto
      from assms True q Inr p obj rl have "unat sz \<le> length rest"
        by (simp add: demand_internal_def)
      from load_functions_enough [OF this, of E s' world] q Inr p obj rest' True show ?thesis
        by (auto simp: load_internal_def load_madness_function_vector_def
                 split: prod.splits sum.splits)
    qed
  qed
qed

lemma load_internal_consumes:
  assumes "load_internal E s world T rl = (Inr (obj, rest), s')"
  shows "length rl = demand_internal E s world T rl + length rest"
proof (cases "T = TFuncVec")
  case False
  with assms have "load_other E s world T rl = (Inr (obj, rest), s')"
    by (simp add: load_internal_def)
  from load_other_success [OF this] False show ?thesis
    by (auto simp: demand_internal_def)
next
  case True
  with assms obtain sz rl' s1 fs where
    first: "load_other E s world TSize rl = (Inr (VSize sz, rl'), s1)"
    and more: "load_functions E s1 world (unat sz) rl' = (Inr (fs, rest), s')"
    by (auto simp: load_internal_def load_madness_function_vector_def
             split: prod.splits sum.splits cached_objT.splits)
  from load_other_success [OF first] load_functions_success [OF more] first True
  show ?thesis by (auto simp: demand_internal_def)
qed

lemma load_tuple_enough:
  "demand_tuple E s world Ts rl \<le> length rl \<Longrightarrow>
   fst (load_tuple E s world Ts rl) \<noteq> Inl PopFrontOfEmptyList"
proof (induction Ts arbitrary: s rl)
  case Nil
  then show ?case by simp
next
  case (Cons T Ts)
  obtain q s' where q: "load_internal E s world T rl = (q, s')"
    by (cases "load_internal E s world T rl")
  show ?case
  proof (cases q)
    case (Inl e)
    with q Cons.prems have "demand_internal E s world T rl \<le> length rl" by simp
    from load_internal_enough [OF this] q Inl show ?thesis by auto
  next
    case (Inr p)
    obtain obj rest where p: "p = (obj, rest)" by (cases p)
    from q Inr p have l: "load_internal E s world T rl = (Inr (obj, rest), s')" by simp
    from load_internal_consumes [OF l] Cons.prems l
    have "demand_tuple E s' world Ts rest \<le> length rest" by simp
    from Cons.IH [OF this] l show ?thesis
      by (auto split: prod.splits sum.splits)
  qed
qed

lemma load_tuple_consumes:
  "load_tuple E s world Ts rl = (Inr (objs, rest), s') \<Longrightarrow>
   length rl = demand_tuple E s world Ts rl + length rest"
proof (induction Ts arbitrary: s rl objs)
  case Nil
  then show ?case by simp
next
  case (Cons T Ts)
  from Cons.prems obtain obj rl' s1 objs' where
    first: "load_internal E s world T rl = (Inr (obj, rl'), s1)"
    and more: "load_tuple E s1 world Ts rl' = (Inr (objs', rest), s')"
    by (auto split: prod.splits sum.splits)
  from load_internal_consumes [OF first] Cons.IH [OF more] first show ?case by simp
qed

text \<open>
  C10. Popping the front of an empty record list is undefined in the source: the model
  returns \<open>None\<close>, and \<^verbatim>\<open>load_other\<close> then fails with \<open>PopFrontOfEmptyList\<close>. So a
  load of an object from the empty list fails this way, and every load of an object
  asks for at least one record. When the list holds as many records as the recursion
  of the load asks for, that failure cannot happen; when it holds fewer, the load does
  not return a value; and a load that returns has popped exactly that many.
\<close>

theorem pop_needs_records:
  "pop_front_and_return [] = None
   \<and> load_other E s world T [] = (Inl PopFrontOfEmptyList, s)
   \<and> fst (load E s world (TObj T) []) = Inl PopFrontOfEmptyList
   \<and> 1 \<le> demand E s world (TObj T) recordlist
   \<and> (demand E s world LT recordlist \<le> length recordlist \<longrightarrow>
        fst (load E s world LT recordlist) \<noteq> Inl PopFrontOfEmptyList)
   \<and> (length recordlist < demand E s world LT recordlist \<longrightarrow>
        (\<forall>v. fst (load E s world LT recordlist) \<noteq> Inr v))
   \<and> (\<forall>obj rest s'. load_internal E s world T recordlist = (Inr (obj, rest), s') \<longrightarrow>
        length recordlist = demand E s world (TObj T) recordlist + length rest)
   \<and> (\<forall>objs rest s'. load_tuple E s world Ts recordlist = (Inr (objs, rest), s') \<longrightarrow>
        length recordlist = demand E s world (TTuple Ts) recordlist + length rest)"
proof -
  have empty: "fst (load E s world (TObj T) []) = Inl PopFrontOfEmptyList"
    by (simp add: load_internal_def load_madness_function_vector_def load_other_Nil)
  have enough: "fst (load E s world LT recordlist) \<noteq> Inl PopFrontOfEmptyList"
    if "demand E s world LT recordlist \<le> length recordlist"
  proof (cases LT)
    case (TObj T')
    with that load_internal_enough [of E s world T' recordlist] show ?thesis
      by (auto split: prod.splits sum.splits)
  next
    case (TTuple Ts')
    with that load_tuple_enough [of E s world Ts' recordlist] show ?thesis
      by (auto split: prod.splits sum.splits)
  qed
  have short: "fst (load E s world LT recordlist) \<noteq> Inr v"
    if "length recordlist < demand E s world LT recordlist" for v
  proof (cases LT)
    case (TObj T')
    with that load_internal_consumes [of E s world T' recordlist] show ?thesis
      by (fastforce split: prod.splits sum.splits)
  next
    case (TTuple Ts')
    with that load_tuple_consumes [of E s world Ts' recordlist] show ?thesis
      by (fastforce split: prod.splits sum.splits)
  qed
  from empty enough short load_internal_consumes [of E s world T recordlist]
    load_tuple_consumes [of E s world Ts recordlist]
    demand_internal_positive [of E s world T recordlist]
  show ?thesis by (simp add: load_other_Nil)
qed

theorem pop_needs_records_witness:
  "demand demo (snd stored_vector) rank1 (TObj TFuncVec) [17, 45, 53] = 3
   \<and> fst (load demo (snd stored_vector) rank1 (TObj TFuncVec) [17, 45, 53]) \<noteq> Inl PopFrontOfEmptyList
   \<and> demand demo (snd stored_vector) rank1 (TObj TFuncVec) [17, 45] = 3
   \<and> fst (load demo (snd stored_vector) rank1 (TObj TFuncVec) [17, 45]) = Inl PopFrontOfEmptyList"
proof -
  have a: "demand demo (snd stored_vector) rank1 (TObj TFuncVec) [17, 45, 53] = 3" by code_simp
  have b: "demand demo (snd stored_vector) rank1 (TObj TFuncVec) [17, 45] = 3" by code_simp
  have c: "fst (load demo (snd stored_vector) rank1 (TObj TFuncVec) [17, 45]) = Inl PopFrontOfEmptyList"
    by code_simp
  from pop_needs_records [of demo "snd stored_vector" rank1 TFuncVec "[17, 45, 53]" "TObj TFuncVec"] a b c
  show ?thesis by simp
qed

section \<open>Store, then load\<close>

lemma store_makes_ready:
  assumes "collision_free E L" and "agrees_with E s L" and "\<not> force_load_from_cache s"
  shows "ready E (foldl (store_state E world) s L) L"
proof -
  let ?s1 = "foldl (store_state E world) s L"
  have "container ?s1 (compute_record E obj) = Some (archive_store E obj)" if obj: "obj \<in> set L" for obj
  proof (cases "compute_record E obj \<in> set (local_list_of_container_keys s)")
    case True
    then have "container ?s1 (compute_record E obj) = container s (compute_record E obj)"
      by (simp add: store_all_container_kept)
    with True obj assms(2) show ?thesis by (simp add: agrees_with_def is_in_container_def)
  next
    case False
    with obj store_all_container_written [of "compute_record E obj" E L s world]
    obtain obj' where "obj' \<in> set L" "compute_record E obj' = compute_record E obj"
      "container ?s1 (compute_record E obj) = Some (archive_store E obj')" by auto
    with obj assms(1) show ?thesis by (auto simp: collision_free_def)
  qed
  with assms(2,3) show ?thesis
    by (simp add: ready_def agrees_with_def store_all_frame)
qed

lemma load_other_ready:
  assumes "ready E s L" and "archive_inverts E L" and "collision_free E L" and "obj \<in> set L"
  shows "\<exists>s'. load_other E s world (type_of_obj obj) (compute_record E obj # rest) =
               (Inr (obj, rest), s') \<and> ready E s' L"
proof (cases "cached_objects s (compute_record E obj)")
  case None
  from assms(1,2,4) have f: "fetch E s (type_of_obj obj) (compute_record E obj) = Inr obj"
    by (simp add: ready_def archive_inverts_def fetch_def)
  have "ready E (cache s obj (compute_record E obj)) L"
    using assms(1,3,4) unfolding ready_def cache_def collision_free_def
    by (auto split: option.splits)
  with None f assms(1) show ?thesis by (simp add: load_other_miss ready_def)
next
  case (Some c)
  with assms(1,4) have "c = obj" by (auto simp: ready_def)
  moreover from assms(1) have "ready E (count_read s world) L"
    by (simp add: ready_def count_read_frame)
  ultimately show ?thesis using Some by (simp add: load_other_hit)
qed

lemma load_functions_ready:
  "ready E s L \<Longrightarrow> archive_inverts E L \<Longrightarrow> collision_free E L \<Longrightarrow>
   VFunction ` set fs \<subseteq> set L \<Longrightarrow>
   \<exists>s'. load_functions E s world (length fs)
           (map (compute_record E) (map VFunction fs) @ rest) = (Inr (fs, rest), s')
        \<and> ready E s' L"
proof (induction fs arbitrary: s)
  case Nil
  then show ?case by simp
next
  case (Cons f fs)
  from Cons.prems have "VFunction f \<in> set L" by simp
  from load_other_ready [OF Cons.prems(1-3) this, of world]
  obtain s1 where first: "load_other E s world TFunction
      (compute_record E (VFunction f) # map (compute_record E) (map VFunction fs) @ rest) =
      (Inr (VFunction f, map (compute_record E) (map VFunction fs) @ rest), s1)"
    and r1: "ready E s1 L" by fastforce
  from Cons.prems have "VFunction ` set fs \<subseteq> set L" by simp
  from Cons.IH [OF r1 Cons.prems(2,3) this] obtain s2 where
    "load_functions E s1 world (length fs)
       (map (compute_record E) (map VFunction fs) @ rest) = (Inr (fs, rest), s2)"
    "ready E s2 L" by blast
  with first show ?case by simp
qed

lemma load_internal_ready:
  assumes "ready E s L" and "archive_inverts E L" and "collision_free E L"
    and "set (leaves (Obj obj)) \<subseteq> set L" and "sizes_fit (Obj obj)"
  shows "\<exists>s'. load_internal E s world (type_of_obj obj)
                 (map (compute_record E) (leaves (Obj obj)) @ rest) = (Inr (obj, rest), s')
              \<and> ready E s' L"
proof (cases "\<exists>fs. obj = VFuncVec fs")
  case False
  then have l: "leaves (Obj obj) = [obj]" and t: "type_of_obj obj \<noteq> TFuncVec"
    by (cases obj; simp)+
  with assms(4) have "obj \<in> set L" by simp
  from load_other_ready [OF assms(1-3) this, of world rest] l t show ?thesis
    by (simp add: load_internal_def)
next
  case True
  then obtain fs where obj: "obj = VFuncVec fs" ..
  let ?n = "of_nat (length fs) :: 64 word"
  from assms(4) obj have "VSize ?n \<in> set L" and fsL: "VFunction ` set fs \<subseteq> set L" by auto
  from load_other_ready [OF assms(1-3) this(1), of world]
  obtain s1 where first: "load_other E s world TSize
      (compute_record E (VSize ?n) # map (compute_record E) (map VFunction fs) @ rest) =
      (Inr (VSize ?n, map (compute_record E) (map VFunction fs) @ rest), s1)"
    and r1: "ready E s1 L" by fastforce
  from assms(5) obj have n: "unat ?n = length fs" by (simp add: unat_of_nat)
  from load_functions_ready [OF r1 assms(2,3) fsL] obtain s2 where
    "load_functions E s1 world (length fs)
       (map (compute_record E) (map VFunction fs) @ rest) = (Inr (fs, rest), s2)"
    "ready E s2 L" by blast
  with first n obj show ?thesis
    by (simp add: load_internal_def load_madness_function_vector_def)
qed

lemma load_tuple_ready:
  "ready E s L \<Longrightarrow> archive_inverts E L \<Longrightarrow> collision_free E L \<Longrightarrow>
   set (concat (map leaves (map Obj objs))) \<subseteq> set L \<Longrightarrow>
   \<forall>obj \<in> set objs. sizes_fit (Obj obj) \<Longrightarrow>
   \<exists>s'. load_tuple E s world (map type_of_obj objs)
           (map (compute_record E) (concat (map leaves (map Obj objs))) @ rest) =
           (Inr (objs, rest), s')
        \<and> ready E s' L"
proof (induction objs arbitrary: s)
  case Nil
  then show ?case by simp
next
  case (Cons obj objs)
  let ?more = "map (compute_record E) (concat (map leaves (map Obj objs))) @ rest"
  from Cons.prems have a: "set (leaves (Obj obj)) \<subseteq> set L" and b: "sizes_fit (Obj obj)"
    by simp_all
  from load_internal_ready [OF Cons.prems(1-3) a b, of world ?more]
  obtain s1 where first: "load_internal E s world (type_of_obj obj)
      (map (compute_record E) (leaves (Obj obj)) @ ?more) = (Inr (obj, ?more), s1)"
    and r1: "ready E s1 L" by blast
  from Cons.prems have "set (concat (map leaves (map Obj objs))) \<subseteq> set L"
    and "\<forall>obj \<in> set objs. sizes_fit (Obj obj)" by simp_all
  from Cons.IH [OF r1 Cons.prems(2,3) this] obtain s2 where
    "load_tuple E s1 world (map type_of_obj objs) ?more = (Inr (objs, rest), s2)"
    "ready E s2 L" by blast
  with first show ?case by simp
qed

lemma those_obj_of: "those (map obj_of vs) = Some objs \<Longrightarrow> vs = map Obj objs"
proof (induction vs arbitrary: objs)
  case Nil
  then show ?case by simp
next
  case (Cons v vs)
  then show ?case by (cases v) (auto split: option.splits)
qed

text \<open>
  C1, as the code has it. Let the value be an object or a tuple of objects, with vector
  lengths that fit \<^verbatim>\<open>std::size_t\<close>; let the input archive read back what the output
  archive writes for the objects the store visits; let any two of these objects with the
  same record be the same object; let ledger, container and cache hold nothing else at
  these records (as on a new cloud); and let \<open>force_load_from_cache\<close> be off. Then
  loading the record list of the store, from the cloud the store left, returns the value.
\<close>

theorem store_load_roundtrip:
  assumes "type_of_val v = Some LT"
    and "sizes_fit v"
    and "archive_inverts E (leaves v)"
    and "collision_free E (leaves v)"
    and "agrees_with E s (leaves v)"
    and "\<not> force_load_from_cache s"
  shows "fst (load E (snd (store E s world v)) world2 LT (fst (store E s world v))) = Inr v"
proof -
  let ?L = "leaves v"
  let ?s1 = "foldl (store_state E world) s ?L"
  have st: "store E s world v = (map (compute_record E) ?L, ?s1)"
    by (rule store_eq_leaves)
  have r: "ready E ?s1 ?L"
    by (rule store_makes_ready [OF assms(4,5,6)])
  show ?thesis
  proof (cases v)
    case (Obj obj)
    with assms(1) have LT: "LT = TObj (type_of_obj obj)" by simp
    from Obj assms(2) have "set (leaves (Obj obj)) \<subseteq> set ?L" "sizes_fit (Obj obj)" by simp_all
    from load_internal_ready [OF r assms(3,4) this, of world2 "[]"] obtain s2 where
      "load_internal E ?s1 world2 (type_of_obj obj) (map (compute_record E) (leaves (Obj obj))) =
         (Inr (obj, []), s2)" by auto
    with Obj LT show ?thesis unfolding st by simp
  next
    case (Tuple vs)
    with assms(1) obtain objs where th: "those (map obj_of vs) = Some objs"
      and LT: "LT = TTuple (map type_of_obj objs)" by auto
    from those_obj_of [OF th] have vs: "vs = map Obj objs" .
    from Tuple vs assms(2) have "set (concat (map leaves (map Obj objs))) \<subseteq> set ?L"
      "\<forall>obj \<in> set objs. sizes_fit (Obj obj)" by simp_all
    from load_tuple_ready [OF r assms(3,4) this, of world2 "[]"] obtain s2 where
      "load_tuple E ?s1 world2 (map type_of_obj objs)
         (map (compute_record E) (concat (map leaves (map Obj objs)))) = (Inr (objs, []), s2)"
      by auto
    with Tuple vs LT show ?thesis unfolding st by simp
  qed
qed

theorem store_load_roundtrip_witness:
  "type_of_val demo_tuple = Some (TTuple [TInt, TFuncVec, TInt])
   \<and> fst (load demo (snd (store demo (new_Cloud 0 0) rank0 demo_tuple)) rank1
            (TTuple [TInt, TFuncVec, TInt]) (fst (store demo (new_Cloud 0 0) rank0 demo_tuple))) =
       Inr demo_tuple"
proof -
  have a: "type_of_val demo_tuple = Some (TTuple [TInt, TFuncVec, TInt])" by code_simp
  have b: "sizes_fit demo_tuple" by (simp add: demo_tuple_def)
  have c: "archive_inverts demo (leaves demo_tuple)" by code_simp
  have d: "collision_free demo (leaves demo_tuple)" by code_simp
  have e: "agrees_with demo (new_Cloud 0 0) (leaves demo_tuple)" by code_simp
  have f: "\<not> force_load_from_cache (new_Cloud 0 0)" by code_simp
  from store_load_roundtrip [OF a b c d e f, of rank0 rank1] a show ?thesis by simp
qed

text \<open>
  C1 as the spec states it fails. A function and the pointer to its implementation have
  the same record, the hash of the identifier of the object. Stored as the two members
  of a tuple on a new cloud, with an archive that reads back what it wrote, they give a
  record list that does not load: the first member is fetched and cached as a function,
  and the second finds, at its record, a cached object of another type.
\<close>

theorem store_load_roundtrip_counterexample:
  "type_of_val function_and_impl = Some (TTuple [TFunction, TImplPtr])
   \<and> archive_inverts demo (leaves function_and_impl)
   \<and> fst (store demo (new_Cloud 0 0) rank0 function_and_impl) = [61, 61]
   \<and> fst (load demo (snd (store demo (new_Cloud 0 0) rank0 function_and_impl)) rank0
            (TTuple [TFunction, TImplPtr]) (fst (store demo (new_Cloud 0 0) rank0 function_and_impl))) =
       Inl CacheTypeMismatch
   \<and> fst (load demo (snd (store demo (new_Cloud 0 0) rank0 function_and_impl)) rank0
            (TTuple [TFunction, TImplPtr]) (fst (store demo (new_Cloud 0 0) rank0 function_and_impl))) \<noteq>
       Inr function_and_impl"
proof -
  have a: "type_of_val function_and_impl = Some (TTuple [TFunction, TImplPtr])" by code_simp
  have b: "archive_inverts demo (leaves function_and_impl)" by code_simp
  have c: "fst (store demo (new_Cloud 0 0) rank0 function_and_impl) = [61, 61]" by code_simp
  have d: "fst (load demo (snd (store demo (new_Cloud 0 0) rank0 function_and_impl)) rank0
            (TTuple [TFunction, TImplPtr]) (fst (store demo (new_Cloud 0 0) rank0 function_and_impl))) =
       Inl CacheTypeMismatch" by code_simp
  from a b c d show ?thesis by simp
qed

end
